theory Spec2Isabelle
  imports Main "HOL-Library.Word" "HOL-Library.AList" "HOL-Library.Sublist"
    "HOL-Library.Char_ord" "HOL-Library.List_Lexorder"
begin

unbundle bit_operations_syntax

section \<open>The digest: SHA-256 and its hexadecimal rendering\<close>

text \<open>
  \<^verbatim>\<open>hashFile\<close> feeds the bytes of a file to \<^verbatim>\<open>sha256.New()\<close> and prints
  \<^verbatim>\<open>hasher.Sum(nil)\<close> with \<^verbatim>\<open>%x\<close>. The digest is the SHA-256 of FIPS 180-4 as
  Go's generic block function computes it: 32-bit words that wrap, a 64-word
  message schedule and 64 rounds per 64-byte chunk, the padding of
  \<^verbatim>\<open>checkSum\<close> (0x80, zeros up to 56 modulo 64, the bit length as a
  big-endian 64-bit word that wraps as Go's \<^verbatim>\<open>uint64\<close> does). The round
  constants \<^verbatim>\<open>_K\<close> and the initial values \<^verbatim>\<open>init0\<close> to \<^verbatim>\<open>init7\<close> are written in
  decimal.
\<close>

type_synonym byte = "8 word"
type_synonym bytes = "byte list"
type_synonym u32 = "32 word"
type_synonym sha_state = "u32 \<times> u32 \<times> u32 \<times> u32 \<times> u32 \<times> u32 \<times> u32 \<times> u32"

definition K256 :: "u32 list" where
  "K256 =
    [1116352408, 1899447441, 3049323471, 3921009573, 961987163, 1508970993, 2453635748, 2870763221,
     3624381080, 310598401, 607225278, 1426881987, 1925078388, 2162078206, 2614888103, 3248222580,
     3835390401, 4022224774, 264347078, 604807628, 770255983, 1249150122, 1555081692, 1996064986,
     2554220882, 2821834349, 2952996808, 3210313671, 3336571891, 3584528711, 113926993, 338241895,
     666307205, 773529912, 1294757372, 1396182291, 1695183700, 1986661051, 2177026350, 2456956037,
     2730485921, 2820302411, 3259730800, 3345764771, 3516065817, 3600352804, 4094571909, 275423344,
     430227734, 506948616, 659060556, 883997877, 958139571, 1322822218, 1537002063, 1747873779,
     1955562222, 2024104815, 2227730452, 2361852424, 2428436474, 2756734187, 3204031479, 3329325298]"

definition sha_init :: sha_state where
  "sha_init = (1779033703, 3144134277, 1013904242, 2773480762,
               1359893119, 2600822924, 528734635, 1541459225)"

definition be_u32 :: "bytes \<Rightarrow> u32" where
  "be_u32 p = push_bit 24 (ucast (p ! 0)) OR push_bit 16 (ucast (p ! 1))
              OR push_bit 8 (ucast (p ! 2)) OR ucast (p ! 3)"

fun schedule :: "nat \<Rightarrow> u32 list \<Rightarrow> u32 list" where
  "schedule 0 w = w"
| "schedule (Suc n) w =
     (let i = length w;
          v1 = w ! (i - 2);
          t1 = word_rotr 17 v1 XOR word_rotr 19 v1 XOR drop_bit 10 v1;
          v2 = w ! (i - 15);
          t2 = word_rotr 7 v2 XOR word_rotr 18 v2 XOR drop_bit 3 v2
      in schedule n (w @ [t1 + w ! (i - 7) + t2 + w ! (i - 16)]))"

fun round256 :: "sha_state \<Rightarrow> u32 \<times> u32 \<Rightarrow> sha_state" where
  "round256 (a, b, c, d, e, f, g, h) (k, w) =
     (let t1 = h + (word_rotr 6 e XOR word_rotr 11 e XOR word_rotr 25 e)
                 + ((e AND f) XOR (NOT e AND g)) + k + w;
          t2 = (word_rotr 2 a XOR word_rotr 13 a XOR word_rotr 22 a)
                 + ((a AND b) XOR (a AND c) XOR (b AND c))
      in (t1 + t2, a, b, c, d + t1, e, f, g))"

fun add_state :: "sha_state \<Rightarrow> sha_state \<Rightarrow> sha_state" where
  "add_state (h0, h1, h2, h3, h4, h5, h6, h7) (a, b, c, d, e, f, g, h) =
     (h0 + a, h1 + b, h2 + c, h3 + d, h4 + e, h5 + f, h6 + g, h7 + h)"

definition block :: "sha_state \<Rightarrow> bytes \<Rightarrow> sha_state" where
  "block hs p =
     (let w = schedule 48 (map (\<lambda>i. be_u32 (drop (4 * i) p)) [0..<16])
      in add_state hs (foldl round256 hs (zip K256 w)))"

fun blockGeneric :: "sha_state \<Rightarrow> bytes \<Rightarrow> sha_state" where
  "blockGeneric hs p =
     (if 64 \<le> length p then blockGeneric (block hs (take 64 p)) (drop 64 p) else hs)"

definition put_u64 :: "64 word \<Rightarrow> bytes" where
  "put_u64 v = map (\<lambda>i. ucast (drop_bit (8 * (7 - i)) v)) [0..<8]"

definition put_u32 :: "u32 \<Rightarrow> bytes" where
  "put_u32 v = map (\<lambda>i. ucast (drop_bit (8 * (3 - i)) v)) [0..<4]"

definition padding :: "nat \<Rightarrow> bytes" where
  "padding len =
     (let t = (if len mod 64 < 56 then 56 - len mod 64 else 64 + 56 - len mod 64)
      in 0x80 # replicate (t - 1) 0 @ put_u64 (push_bit 3 (of_nat len)))"

fun state_bytes :: "sha_state \<Rightarrow> bytes" where
  "state_bytes (h0, h1, h2, h3, h4, h5, h6, h7) =
     put_u32 h0 @ put_u32 h1 @ put_u32 h2 @ put_u32 h3 @
     put_u32 h4 @ put_u32 h5 @ put_u32 h6 @ put_u32 h7"

definition sha256_Sum :: "bytes \<Rightarrow> bytes" where
  "sha256_Sum b = state_bytes (blockGeneric sha_init (b @ padding (length b)))"

definition ldigits :: string where
  "ldigits = ''0123456789abcdef''"

definition hex_digit :: "nat \<Rightarrow> char" where
  "hex_digit n = ldigits ! n"

definition hex_byte :: "byte \<Rightarrow> string" where
  "hex_byte b = [hex_digit (unat b div 16), hex_digit (unat b mod 16)]"

definition sprintf_x :: "bytes \<Rightarrow> string" where
  "sprintf_x bs = concat (map hex_byte bs)"

declare blockGeneric.simps [simp del]

section \<open>Paths\<close>

text \<open>
  The functions of \<^verbatim>\<open>path/filepath\<close> and \<^verbatim>\<open>strings\<close> that \<^verbatim>\<open>storeFile\<close> calls, on
  Unix, where the separator is the slash. \<^verbatim>\<open>Ext\<close> scans the path from its last
  byte towards the first and stops at a separator; the scan is a recursion over
  the reversed path, the bytes passed so far being collected in \<open>acc\<close>.
\<close>

type_synonym path = string

definition IsPathSeparator :: "char \<Rightarrow> bool" where
  "IsPathSeparator c = (c = CHR ''/'')"

fun Ext_scan :: "string \<Rightarrow> string \<Rightarrow> string" where
  "Ext_scan [] acc = []"
| "Ext_scan (c # cs) acc =
     (if IsPathSeparator c then []
      else if c = CHR ''.'' then c # acc
      else Ext_scan cs (c # acc))"

definition Ext :: "path \<Rightarrow> string" where
  "Ext p = Ext_scan (rev p) []"

definition Base :: "path \<Rightarrow> string" where
  "Base p =
     (if p = [] then ''.''
      else
        let stripped = rev (dropWhile IsPathSeparator (rev p));
            element = rev (takeWhile (\<lambda>c. \<not> IsPathSeparator c) (rev stripped))
        in if element = [] then ''/'' else element)"

definition TrimSuffix :: "string \<Rightarrow> string \<Rightarrow> string" where
  "TrimSuffix s suf = (if suffix suf s then take (length s - length suf) s else s)"

text \<open>
  \<^verbatim>\<open>filepath.Join\<close> puts a separator between its arguments and cleans the result.
  Its only call joins the storage directory with a digest followed by an
  extension, a name without separator and without a dot-only element, which
  \<^verbatim>\<open>Clean\<close> leaves as it is (\<open>Clean_Join_storage\<close> below).
\<close>

definition Join :: "path \<Rightarrow> string \<Rightarrow> path" where
  "Join d name = d @ ''/'' @ name"

definition storageDir :: path where
  "storageDir = ''storage''"

text \<open>The components of a path, and the directory an entry lives in.\<close>

fun split_path :: "path \<Rightarrow> string list" where
  "split_path [] = [[]]"
| "split_path (c # cs) =
     (if IsPathSeparator c then [] # split_path cs
      else (case split_path cs of [] \<Rightarrow> [[c]] | x # xs \<Rightarrow> (c # x) # xs))"

definition parent_dir :: "path \<Rightarrow> path" where
  "parent_dir p =
     (let r = dropWhile (\<lambda>c. \<not> IsPathSeparator c) (rev p)
      in if r = [] then ''.'' else rev (tl r))"

text \<open>
  \<^verbatim>\<open>filepath.Clean\<close>, element by element: empty elements and \<^verbatim>\<open>.\<close> are dropped, a
  \<^verbatim>\<open>..\<close> removes the element written before it, is dropped at the root of a
  rooted path, and is kept where a relative path has nothing left to remove;
  an empty result is \<^verbatim>\<open>.\<close>. \<open>out\<close> holds the elements written so far, the
  last one first.
\<close>

fun join_elems :: "string list \<Rightarrow> path" where
  "join_elems [] = []"
| "join_elems [x] = x"
| "join_elems (x # y # ys) = x @ ''/'' @ join_elems (y # ys)"

fun clean_elems :: "bool \<Rightarrow> string list \<Rightarrow> string list \<Rightarrow> string list" where
  "clean_elems rooted [] out = rev out"
| "clean_elems rooted (c # cs) out =
     (if c = [] \<or> c = ''.'' then clean_elems rooted cs out
      else if c = ''..'' then
        (case out of
           [] \<Rightarrow> clean_elems rooted cs (if rooted then [] else [''..''])
         | x # xs \<Rightarrow> clean_elems rooted cs (if x = ''..'' then ''..'' # out else xs))
      else clean_elems rooted cs (c # out))"

definition Clean :: "path \<Rightarrow> path" where
  "Clean p =
     (if p = [] then ''.''
      else
        let rooted = IsPathSeparator (hd p);
            elems = clean_elems rooted (split_path p) []
        in if rooted then ''/'' @ join_elems elems
           else if elems = [] then ''.'' else join_elems elems)"

section \<open>The file system, the database and their failures\<close>

text \<open>
  The program works on the files below its working directory and on the two
  tables of \<^verbatim>\<open>file_manager.db\<close>. Regular files are an association list from
  path to content (a lookup takes the first entry of a path, a removal deletes
  every entry of it), directories a list of paths. The tables are the lists of
  their rows in insertion order (the \<^verbatim>\<open>AUTOINCREMENT\<close> id); the timestamp column
  is left out.
\<close>

record action =
  action_type :: string
  filename :: string
  storage_id :: string

record version_row =
  vfilename :: string
  version :: int
  hash :: string

record state =
  files :: "(path \<times> bytes) list"
  dirs :: "path list"
  actions :: "action list"
  versions :: "version_row list"

text \<open>
  What the operating system and the database driver may refuse is a parameter
  of every operation: each field tells whether the call of that name fails on
  a given argument for a reason outside the model (permissions, a full disk, a
  locked database). \<open>copy_fails p = Some n\<close> is a copy to \<open>p\<close> that fails once
  \<open>n\<close> bytes are written.
\<close>

record env =
  mkdir_fails :: "path \<Rightarrow> bool"
  open_fails :: "path \<Rightarrow> bool"
  read_fails :: "path \<Rightarrow> bool"
  create_fails :: "path \<Rightarrow> bool"
  copy_fails :: "path \<Rightarrow> nat option"
  remove_fails :: "path \<Rightarrow> bool"
  lstat_fails :: "path \<Rightarrow> bool"
  readdir_fails :: "path \<Rightarrow> bool"
  action_fails :: "action \<Rightarrow> bool"
  query_fails :: "string \<Rightarrow> bool"
  insert_fails :: "version_row \<Rightarrow> bool"

definition no_faults :: env where
  "no_faults =
     \<lparr>mkdir_fails = (\<lambda>_. False), open_fails = (\<lambda>_. False), read_fails = (\<lambda>_. False),
      create_fails = (\<lambda>_. False), copy_fails = (\<lambda>_. None), remove_fails = (\<lambda>_. False),
      lstat_fails = (\<lambda>_. False), readdir_fails = (\<lambda>_. False),
      action_fails = (\<lambda>_. False), query_fails = (\<lambda>_. False), insert_fails = (\<lambda>_. False)\<rparr>"

text \<open>
  A Go error is the failed call, or a message wrapped around another error
  by \<^verbatim>\<open>fmt.Errorf("...: %w", err)\<close>.
\<close>

datatype error =
    OsError string path
  | DbError
  | Wrapped string error

definition is_file :: "state \<Rightarrow> path \<Rightarrow> bool" where
  "is_file s p = (map_of (files s) p \<noteq> None)"

definition is_dir :: "state \<Rightarrow> path \<Rightarrow> bool" where
  "is_dir s p = (p \<in> set (dirs s))"

text \<open>\<^verbatim>\<open>os.Stat\<close> returns no error on a path that exists, a not-exist error otherwise.\<close>

definition os_Stat :: "state \<Rightarrow> path \<Rightarrow> bool" where
  "os_Stat s p = (is_file s p \<or> is_dir s p)"

definition parent_ok :: "state \<Rightarrow> path \<Rightarrow> bool" where
  "parent_ok s p = (parent_dir p = ''.'' \<or> parent_dir p = [] \<or> is_dir s (parent_dir p))"

definition os_Mkdir :: "env \<Rightarrow> path \<Rightarrow> state \<Rightarrow> error + state" where
  "os_Mkdir e p s =
     (if mkdir_fails e p \<or> os_Stat s p \<or> \<not> parent_ok s p then Inl (OsError ''mkdir'' p)
      else Inr (s\<lparr>dirs := p # dirs s\<rparr>))"

text \<open>An open file is its path: nothing changes the file while it is open.\<close>

definition os_Open :: "env \<Rightarrow> path \<Rightarrow> state \<Rightarrow> error + path" where
  "os_Open e p s =
     (if open_fails e p \<or> \<not> os_Stat s p then Inl (OsError ''open'' p) else Inr p)"

definition read_all :: "env \<Rightarrow> path \<Rightarrow> state \<Rightarrow> error + bytes" where
  "read_all e f s =
     (if read_fails e f \<or> is_dir s f then Inl (OsError ''read'' f)
      else (case map_of (files s) f of
              None \<Rightarrow> Inl (OsError ''read'' f)
            | Some b \<Rightarrow> Inr b))"

text \<open>\<^verbatim>\<open>os.Create\<close> opens with \<^verbatim>\<open>O_CREATE|O_TRUNC\<close>: the file is empty afterwards.\<close>

definition os_Create :: "env \<Rightarrow> path \<Rightarrow> state \<Rightarrow> error + state" where
  "os_Create e p s =
     (if create_fails e p \<or> is_dir s p \<or> \<not> parent_ok s p then Inl (OsError ''open'' p)
      else Inr (s\<lparr>files := AList.update p [] (files s)\<rparr>))"

text \<open>
  \<^verbatim>\<open>io.Copy(dst, src)\<close> reads the source to its end and writes what it reads; when
  a write fails, the destination keeps the bytes written before.
\<close>

definition io_Copy :: "env \<Rightarrow> path \<Rightarrow> path \<Rightarrow> state \<Rightarrow> error option \<times> state" where
  "io_Copy e dst src s =
     (case read_all e src s of
        Inl err \<Rightarrow> (Some err, s)
      | Inr b \<Rightarrow>
          (case copy_fails e dst of
             Some n \<Rightarrow> (Some (OsError ''write'' dst), s\<lparr>files := AList.update dst (take n b) (files s)\<rparr>)
           | None \<Rightarrow> (None, s\<lparr>files := AList.update dst b (files s)\<rparr>)))"

definition os_Remove :: "env \<Rightarrow> path \<Rightarrow> state \<Rightarrow> error + state" where
  "os_Remove e p s =
     (if remove_fails e p \<or> \<not> is_file s p then Inl (OsError ''remove'' p)
      else Inr (s\<lparr>files := AList.delete p (files s)\<rparr>))"

section \<open>hashFile\<close>

definition hashFile :: "env \<Rightarrow> path \<Rightarrow> state \<Rightarrow> error + string" where
  "hashFile e filepath s =
     (case os_Open e filepath s of
        Inl err \<Rightarrow> Inl (Wrapped ''failed to open file'' err)
      | Inr file \<Rightarrow>
          (case read_all e file s of
             Inl err \<Rightarrow> Inl (Wrapped ''failed to hash file'' err)
           | Inr b \<Rightarrow> Inr (sprintf_x (sha256_Sum b))))"

section \<open>logAction and logVersion\<close>

definition logAction :: "env \<Rightarrow> string \<Rightarrow> string \<Rightarrow> string \<Rightarrow> state \<Rightarrow> error + state" where
  "logAction e actionType fname storageID s =
     (let row = \<lparr>action_type = actionType, filename = fname, storage_id = storageID\<rparr>
      in if action_fails e row then Inl DbError
         else Inr (s\<lparr>actions := actions s @ [row]\<rparr>))"

text \<open>
  The query of \<^verbatim>\<open>logVersion\<close> orders the rows of the file name by version,
  descending, and takes the first: the greatest version, or no row.
\<close>

definition select_last_version :: "version_row list \<Rightarrow> string \<Rightarrow> int option" where
  "select_last_version rows fname =
     (case filter (\<lambda>r. vfilename r = fname) rows of
        [] \<Rightarrow> None
      | r # rs \<Rightarrow> Some (fold max (map version rs) (version r)))"

text \<open>Go's \<^verbatim>\<open>int\<close> has 64 bits and wraps silently.\<close>

definition int64 :: "int \<Rightarrow> int" where
  "int64 x = signed_take_bit 63 x"

text \<open>
  \<^verbatim>\<open>logVersion\<close> is two statements sent to the database one after the other,
  with no transaction around them: the query with its \<^verbatim>\<open>ErrNoRows\<close> case
  (lines 65 to 77) and the insertion (lines 79 to 81).
\<close>

definition queryLastVersion :: "env \<Rightarrow> string \<Rightarrow> state \<Rightarrow> error + int" where
  "queryLastVersion e fname s =
     (if query_fails e fname then Inl DbError
      else (case select_last_version (versions s) fname of
              None \<Rightarrow> Inr 0
            | Some v \<Rightarrow> Inr v))"

definition insertVersion :: "env \<Rightarrow> string \<Rightarrow> int \<Rightarrow> string \<Rightarrow> state \<Rightarrow> error + state" where
  "insertVersion e fname v h s =
     (let row = \<lparr>vfilename = fname, version = v, hash = h\<rparr>
      in if insert_fails e row then Inl DbError
         else Inr (s\<lparr>versions := versions s @ [row]\<rparr>))"

definition logVersion :: "env \<Rightarrow> string \<Rightarrow> string \<Rightarrow> state \<Rightarrow> error + state" where
  "logVersion e fname h s =
     (case queryLastVersion e fname s of
        Inl err \<Rightarrow> Inl err
      | Inr lastVersion \<Rightarrow> insertVersion e fname (int64 (lastVersion + 1)) h s)"

section \<open>storeFile\<close>

definition ensure_storage :: "env \<Rightarrow> state \<Rightarrow> error + state" where
  "ensure_storage e s =
     (if \<not> os_Stat s storageDir then
        (case os_Mkdir e storageDir s of
           Inl err \<Rightarrow> Inl (Wrapped ''failed to create storage directory'' err)
         | Inr s' \<Rightarrow> Inr s')
      else Inr s)"

definition store_blob :: "env \<Rightarrow> path \<Rightarrow> path \<Rightarrow> string \<Rightarrow> state \<Rightarrow> (error + string) \<times> state" where
  "store_blob e srcFile filePath h s =
     (let ext = Ext filePath;
          fname = TrimSuffix (Base filePath) ext;
          hashedFilename = h @ ext;
          storagePath = Join storageDir hashedFilename
      in if os_Stat s storagePath then
           (case logAction e ''store_duplicate'' (fname @ ext) hashedFilename s of
              Inl err \<Rightarrow> (Inl err, s)
            | Inr s' \<Rightarrow> (Inr hashedFilename, s'))
         else
           (case os_Create e storagePath s of
              Inl err \<Rightarrow> (Inl (Wrapped ''failed to create destination file'' err), s)
            | Inr s1 \<Rightarrow>
                (case io_Copy e storagePath srcFile s1 of
                   (Some err, s2) \<Rightarrow> (Inl (Wrapped ''failed to copy file'' err), s2)
                 | (None, s2) \<Rightarrow>
                     (case logAction e ''store'' (fname @ ext) hashedFilename s2 of
                        Inl err \<Rightarrow> (Inl (Wrapped ''failed to log action'' err), s2)
                      | Inr s3 \<Rightarrow>
                          (case logVersion e (fname @ ext) h s3 of
                             Inl err \<Rightarrow> (Inl (Wrapped ''failed to log version'' err), s3)
                           | Inr s4 \<Rightarrow> (Inr hashedFilename, s4))))))"

definition storeFile :: "env \<Rightarrow> path \<Rightarrow> state \<Rightarrow> (error + string) \<times> state" where
  "storeFile e filePath s =
     (case ensure_storage e s of
        Inl err \<Rightarrow> (Inl err, s)
      | Inr s0 \<Rightarrow>
          (case os_Open e filePath s0 of
             Inl err \<Rightarrow> (Inl (Wrapped ''failed to open source file'' err), s0)
           | Inr srcFile \<Rightarrow>
               (case hashFile e filePath s0 of
                  Inl err \<Rightarrow> (Inl (Wrapped ''failed to hash file'' err), s0)
                | Inr h \<Rightarrow> store_blob e srcFile filePath h s0)))"

section \<open>deduplicateFiles\<close>

text \<open>
  A state holds its files and directories under clean paths, relative to the
  working directory or rooted. \<^verbatim>\<open>filepath.Walk\<close> looks the root up with
  \<^verbatim>\<open>Lstat\<close>: the root may be spelled in any way, every directory its
  spelling goes through must be one, and the entry it names, the one under
  \<^verbatim>\<open>Clean(root)\<close>, must exist; the working directory and the root directory
  always do.
\<close>

definition is_directory :: "state \<Rightarrow> path \<Rightarrow> bool" where
  "is_directory s key = (key = ''.'' \<or> key = ''/'' \<or> is_dir s key)"

definition os_Lstat :: "state \<Rightarrow> path \<Rightarrow> bool" where
  "os_Lstat s root =
     (root \<noteq> [] \<and>
      list_all (\<lambda>i. is_directory s (Clean (join_elems (take i (split_path root)))))
        [1..<length (split_path root)] \<and>
      (is_directory s (Clean root) \<or> is_file s (Clean root)))"

text \<open>
  Below a directory, \<^verbatim>\<open>Walk\<close> visits the entries directory by directory in the
  order of their names, each under the path \<^verbatim>\<open>Join(dir, name)\<close>, which is clean:
  the clean paths of the state that lie below \<^verbatim>\<open>Clean(root)\<close>, ordered by their
  lists of elements. Below \<^verbatim>\<open>.\<close> lie the relative paths that do not leave the
  working directory, below \<^verbatim>\<open>/\<close> the rooted ones (where the working directory
  lies among the rooted paths is not part of a state). The function \<^verbatim>\<open>Walk\<close>
  is given removes nothing but the file it is looking at, so the visits are
  those of the tree the walk started on.
\<close>

definition below :: "path \<Rightarrow> path \<Rightarrow> bool" where
  "below key p =
     (Clean p = p \<and>
      (if key = ''.'' then
         p \<noteq> ''.'' \<and> \<not> IsPathSeparator (hd p) \<and> hd (split_path p) \<noteq> ''..''
       else if key = ''/'' then p \<noteq> ''/'' \<and> IsPathSeparator (hd p)
       else prefix (key @ ''/'') p
            \<and> hd (split_path (drop (Suc (length key)) p)) \<noteq> ''..''))"

definition walk_order :: "state \<Rightarrow> path \<Rightarrow> path list" where
  "walk_order s root =
     sort_key split_path
       (remdups (filter (below (Clean root)) (map fst (files s) @ dirs s)))"

text \<open>
  One visit: the function literal of lines 148 to 175, after the \<^verbatim>\<open>Lstat\<close> or
  the directory read that \<^verbatim>\<open>Walk\<close> hands it the error of. \<open>hashes\<close> is the map
  of line 141; the mutex around it never waits, the walk being one goroutine.
\<close>

fun walk_loop ::
  "env \<Rightarrow> path list \<Rightarrow> (string \<rightharpoonup> path) \<Rightarrow> state \<Rightarrow> error option \<times> (string \<rightharpoonup> path) \<times> state"
where
  "walk_loop e [] hashes s = (None, hashes, s)"
| "walk_loop e (p # ps) hashes s =
     (if lstat_fails e p then (Some (OsError ''lstat'' p), hashes, s)
      else if is_dir s p then
        (if readdir_fails e p then (Some (OsError ''open'' p), hashes, s)
         else walk_loop e ps hashes s)
      else
        (case hashFile e p s of
           Inl err \<Rightarrow> (Some err, hashes, s)
         | Inr fileHash \<Rightarrow>
             (case hashes fileHash of
                Some originalPath \<Rightarrow>
                  (case os_Remove e p s of
                     Inl err \<Rightarrow> (Some err, hashes, s)
                   | Inr s1 \<Rightarrow>
                       (case logAction e ''deduplicate'' p [] s1 of
                          Inl err \<Rightarrow> (Some err, hashes, s1)
                        | Inr s2 \<Rightarrow> walk_loop e ps hashes s2))
              | None \<Rightarrow> walk_loop e ps (hashes(fileHash \<mapsto> p)) s)))"

text \<open>
  \<^verbatim>\<open>Walk\<close> itself: the \<^verbatim>\<open>Lstat\<close> of the root, whose error goes to the function
  (which returns it); then, for a directory, the directory read and the visits
  of what lies below, and for a file the one visit of it, made under the
  spelling of the root and read under its clean path.
\<close>

definition Walk :: "env \<Rightarrow> path \<Rightarrow> state \<Rightarrow> error option \<times> (string \<rightharpoonup> path) \<times> state" where
  "Walk e root s =
     (if lstat_fails e root \<or> \<not> os_Lstat s root then
        (Some (OsError ''lstat'' root), Map.empty, s)
      else if is_directory s (Clean root) then
        (if readdir_fails e root then (Some (OsError ''open'' root), Map.empty, s)
         else walk_loop e (walk_order s root) Map.empty s)
      else
        (case hashFile e (Clean root) s of
           Inl err \<Rightarrow> (Some err, Map.empty, s)
         | Inr fileHash \<Rightarrow> (None, [fileHash \<mapsto> root], s)))"

text \<open>
  The walk runs in a goroutine that sends its error, if any, on \<^verbatim>\<open>errCh\<close>
  (buffered, so the send returns at once) and then \<^verbatim>\<open>true\<close> on \<^verbatim>\<open>done\<close>
  (unbuffered, so the send waits for the receiver); the caller waits in a
  \<^verbatim>\<open>select\<close> over both. After a walk without error only \<^verbatim>\<open>done\<close> can be
  received. After a walk with an error, \<^verbatim>\<open>errCh\<close> holds it; when the caller
  reaches the \<^verbatim>\<open>select\<close> only after the goroutine is waiting to send on
  \<^verbatim>\<open>done\<close>, both cases can proceed and Go picks one of them at random. Which
  case the \<^verbatim>\<open>select\<close> takes is the parameter \<open>sel\<close>.
\<close>

datatype select_case = RecvErrCh | RecvDone

definition deduplicateFiles :: "env \<Rightarrow> select_case \<Rightarrow> path \<Rightarrow> state \<Rightarrow> error option \<times> state" where
  "deduplicateFiles e sel directory s =
     (case Walk e directory s of
        (None, hashes, s') \<Rightarrow> (None, s')
      | (Some err, hashes, s') \<Rightarrow>
          (case sel of RecvErrCh \<Rightarrow> (Some err, s') | RecvDone \<Rightarrow> (None, s')))"

text \<open>
  The files a walk hashes, in the order of the walk, and the digest of the
  file at a path.
\<close>

definition walk_files :: "state \<Rightarrow> path \<Rightarrow> path list" where
  "walk_files s root =
     (if is_directory s (Clean root) then filter (\<lambda>p. \<not> is_dir s p) (walk_order s root)
      else [Clean root])"

definition digest_of :: "state \<Rightarrow> path \<Rightarrow> string option" where
  "digest_of s p = map_option (\<lambda>b. sprintf_x (sha256_Sum b)) (map_of (files s) p)"

section \<open>Histories of calls\<close>

text \<open>
  The program performs one operation per run, so a history of the store is a
  list of calls, each with the failures and the scheduling it met.
\<close>

datatype call = Store env path | Deduplicate env select_case path

fun run_call :: "call \<Rightarrow> state \<Rightarrow> state" where
  "run_call (Store e p) s = snd (storeFile e p s)"
| "run_call (Deduplicate e sel d) s = snd (deduplicateFiles e sel d s)"

fun run_calls :: "call list \<Rightarrow> state \<Rightarrow> state" where
  "run_calls [] s = s"
| "run_calls (c # cs) s = run_calls cs (run_call c s)"

definition version_numbers :: "string \<Rightarrow> version_row list \<Rightarrow> int list" where
  "version_numbers fname rows = map version (filter (\<lambda>r. vfilename r = fname) rows)"

text \<open>
  Two runs of the program at the same time share the database. Each call of
  \<^verbatim>\<open>logVersion\<close> is then at its query, or holds the \<^verbatim>\<open>lastVersion\<close> it read and is
  at its insertion, or has returned; a schedule names the call that performs
  its next statement.
\<close>

datatype lv_pc = AtQuery | AtInsert int | Returned "error option"

type_synonym lv_call = "string \<times> string \<times> lv_pc"

fun lv_step :: "env \<Rightarrow> lv_call \<Rightarrow> state \<Rightarrow> lv_call \<times> state" where
  "lv_step e (fname, h, AtQuery) s =
     (case queryLastVersion e fname s of
        Inl err \<Rightarrow> ((fname, h, Returned (Some err)), s)
      | Inr lastVersion \<Rightarrow> ((fname, h, AtInsert lastVersion), s))"
| "lv_step e (fname, h, AtInsert lastVersion) s =
     (case insertVersion e fname (int64 (lastVersion + 1)) h s of
        Inl err \<Rightarrow> ((fname, h, Returned (Some err)), s)
      | Inr s' \<Rightarrow> ((fname, h, Returned None), s'))"
| "lv_step e (fname, h, Returned r) s = ((fname, h, Returned r), s)"

fun interleave :: "env \<Rightarrow> nat list \<Rightarrow> lv_call list \<Rightarrow> state \<Rightarrow> lv_call list \<times> state" where
  "interleave e [] cs s = (cs, s)"
| "interleave e (i # sched) cs s =
     (if i < length cs then
        (case lv_step e (cs ! i) s of (c', s') \<Rightarrow> interleave e sched (cs[i := c']) s')
      else interleave e sched cs s)"

section \<open>Example inputs\<close>

definition abc :: bytes where
  "abc = [0x61, 0x62, 0x63]"

definition abc_digest :: string where
  "abc_digest = ''ba7816bf8f01cfea414140de5dae2223b00361a396177a9cb410ff61f20015ad''"

definition empty_digest :: string where
  "empty_digest = ''e3b0c44298fc1c149afbf4c8996fb92427ae41e4649b934ca495991b7852b855''"

definition report_state :: state where
  "report_state =
     \<lparr>files = [(''docs/report.pdf'', abc)], dirs = [''docs''], actions = [], versions = []\<rparr>"

definition two_dirs_state :: state where
  "two_dirs_state =
     \<lparr>files = [(''a/x.txt'', abc), (''b/x.txt'', [])], dirs = [''a'', ''b''],
      actions = [], versions = []\<rparr>"

definition x_key :: "bytes \<Rightarrow> string" where
  "x_key b = sprintf_x (sha256_Sum b) @ ''.txt''"

definition two_dirs_stored1 :: state where
  "two_dirs_stored1 =
     \<lparr>files = [(''a/x.txt'', abc), (''b/x.txt'', []), (Join storageDir (x_key abc), abc)],
      dirs = [''storage'', ''a'', ''b''],
      actions = [\<lparr>action_type = ''store'', filename = ''x.txt'', storage_id = x_key abc\<rparr>],
      versions = [\<lparr>vfilename = ''x.txt'', version = 1, hash = sprintf_x (sha256_Sum abc)\<rparr>]\<rparr>"

definition two_dirs_stored2 :: state where
  "two_dirs_stored2 =
     \<lparr>files = [(''a/x.txt'', abc), (''b/x.txt'', []), (Join storageDir (x_key abc), abc),
               (Join storageDir (x_key []), [])],
      dirs = [''storage'', ''a'', ''b''],
      actions = [\<lparr>action_type = ''store'', filename = ''x.txt'', storage_id = x_key abc\<rparr>,
                 \<lparr>action_type = ''store'', filename = ''x.txt'', storage_id = x_key []\<rparr>],
      versions = [\<lparr>vfilename = ''x.txt'', version = 1, hash = sprintf_x (sha256_Sum abc)\<rparr>,
                  \<lparr>vfilename = ''x.txt'', version = 2, hash = sprintf_x (sha256_Sum [])\<rparr>]\<rparr>"

definition racing_calls :: "lv_call list" where
  "racing_calls = [(''x.txt'', abc_digest, AtQuery), (''x.txt'', empty_digest, AtQuery)]"

definition twins_state :: state where
  "twins_state =
     \<lparr>files = [(''d/b.txt'', abc), (''d/a.txt'', abc)], dirs = [''d''],
      actions = [], versions = []\<rparr>"

definition report_state0 :: state where
  "report_state0 =
     \<lparr>files = [(''docs/report.pdf'', abc)], dirs = [''storage'', ''docs''],
      actions = [], versions = []\<rparr>"

definition report_key :: string where
  "report_key = sprintf_x (sha256_Sum abc) @ ''.pdf''"

definition report_stored :: state where
  "report_stored =
     \<lparr>files = [(''docs/report.pdf'', abc), (Join storageDir report_key, abc)],
      dirs = [''storage'', ''docs''],
      actions = [\<lparr>action_type = ''store'', filename = ''report.pdf'', storage_id = report_key\<rparr>],
      versions = [\<lparr>vfilename = ''report.pdf'', version = 1,
                   hash = sprintf_x (sha256_Sum abc)\<rparr>]\<rparr>"

definition report_twice :: state where
  "report_twice =
     report_stored\<lparr>actions := actions report_stored @
       [\<lparr>action_type = ''store_duplicate'', filename = ''report.pdf'',
         storage_id = report_key\<rparr>]\<rparr>"

definition report_truncated :: state where
  "report_truncated =
     report_state0\<lparr>files := [(''docs/report.pdf'', abc), (Join storageDir report_key, [0x61])]\<rparr>"

definition twins_swept :: state where
  "twins_swept =
     \<lparr>files = [(''d/a.txt'', abc)], dirs = [''d''],
      actions = [\<lparr>action_type = ''deduplicate'', filename = ''d/b.txt'', storage_id = []\<rparr>],
      versions = []\<rparr>"

definition trio_state :: state where
  "trio_state =
     \<lparr>files = [(''d/c.txt'', []), (''d/b.txt'', abc), (''d/a.txt'', abc)], dirs = [''d''],
      actions = [], versions = []\<rparr>"

definition trio_swept :: state where
  "trio_swept =
     \<lparr>files = [(''d/c.txt'', []), (''d/a.txt'', abc)], dirs = [''d''],
      actions = [\<lparr>action_type = ''deduplicate'', filename = ''d/b.txt'', storage_id = []\<rparr>],
      versions = []\<rparr>"

definition unreadable_twin :: env where
  "unreadable_twin = no_faults\<lparr>open_fails := (\<lambda>p. p = ''d/b.txt'')\<rparr>"

definition remove_fault :: env where
  "remove_fault = no_faults\<lparr>remove_fails := (\<lambda>_. True)\<rparr>"

definition copy_fault :: env where
  "copy_fault = no_faults\<lparr>copy_fails := (\<lambda>_. Some 1)\<rparr>"

definition create_fault :: env where
  "create_fault = no_faults\<lparr>create_fails := (\<lambda>_. True)\<rparr>"

definition no_rows :: state where
  "no_rows = \<lparr>files = [], dirs = [], actions = [], versions = []\<rparr>"

section \<open>Facts about paths and digests\<close>

lemma Ext_scan_char:
  "Ext_scan xs acc =
     (let e = takeWhile (\<lambda>c. \<not> IsPathSeparator c) xs
      in if CHR ''.'' \<in> set e then CHR ''.'' # rev (takeWhile (\<lambda>c. c \<noteq> CHR ''.'') e) @ acc else [])"
  by (induction xs arbitrary: acc) (auto simp: Let_def IsPathSeparator_def)

lemma Ext_no_sep: "CHR ''/'' \<notin> set (Ext p)"
proof -
  define e where "e = takeWhile (\<lambda>c. \<not> IsPathSeparator c) (rev p)"
  have e: "CHR ''/'' \<notin> set e"
    unfolding e_def using set_takeWhileD [of "CHR ''/''" "\<lambda>c. \<not> IsPathSeparator c" "rev p"]
    by (auto simp: IsPathSeparator_def)
  have "set (takeWhile (\<lambda>c. c \<noteq> CHR ''.'') e) \<subseteq> set e"
    using set_takeWhileD by fastforce
  with e have t: "CHR ''/'' \<notin> set (takeWhile (\<lambda>c. c \<noteq> CHR ''.'') e)"
    by blast
  have "Ext p = (if CHR ''.'' \<in> set e then CHR ''.'' # rev (takeWhile (\<lambda>c. c \<noteq> CHR ''.'') e) else [])"
    by (simp add: Ext_def Ext_scan_char e_def)
  with t show ?thesis by simp
qed

lemma dot_suffix:
  assumes "CHR ''.'' \<in> set e"
  shows "suffix (CHR ''.'' # rev (takeWhile (\<lambda>c. c \<noteq> CHR ''.'') e)) (rev e)"
proof -
  let ?P = "\<lambda>c. c \<noteq> CHR ''.''"
  from assms have ne: "dropWhile ?P e \<noteq> []"
    by (simp add: dropWhile_eq_Nil_conv) 
  then obtain rest where d: "dropWhile ?P e = CHR ''.'' # rest"
    using hd_dropWhile [of ?P e] by (cases "dropWhile ?P e") auto
  have "e = takeWhile ?P e @ CHR ''.'' # rest"
    using takeWhile_dropWhile_id [of ?P e] d by simp
  then have "rev e = rev rest @ (CHR ''.'' # rev (takeWhile ?P e))"
    by (metis rev.simps(2) rev_append append_assoc append_Cons append_Nil)
  then show ?thesis
    unfolding suffix_def by blast
qed

lemma Ext_suffix_Base: "suffix (Ext p) (Base p)"
proof (cases "rev p")
  case Nil
  then show ?thesis by (simp add: Ext_def)
next
  case (Cons c cs)
  show ?thesis
  proof (cases "IsPathSeparator c")
    case True
    with Cons show ?thesis by (simp add: Ext_def)
  next
    case False
    let ?e = "takeWhile (\<lambda>c. \<not> IsPathSeparator c) (rev p)"
    from Cons False have ne: "?e \<noteq> []" by simp
    from Cons False have "dropWhile IsPathSeparator (rev p) = rev p" by simp
    with ne Cons have B: "Base p = rev ?e"
      by (auto simp: Base_def Let_def)
    show ?thesis
      unfolding B Ext_def Ext_scan_char Let_def
      by (simp add: dot_suffix)
  qed
qed

lemma TrimSuffix_Ext: "TrimSuffix (Base p) (Ext p) @ Ext p = Base p"
  using Ext_suffix_Base [of p] by (auto simp: TrimSuffix_def suffix_def)

lemma hex_digit_in: "n < 16 \<Longrightarrow> hex_digit n \<in> set ldigits"
  unfolding hex_digit_def by (rule nth_mem) (simp add: ldigits_def)

lemma hex_byte_in: "set (hex_byte b) \<subseteq> set ldigits"
proof -
  have "unat b < 256" using unsigned_less [of b] by simp
  then have "unat b div 16 < 16" "unat b mod 16 < 16" by auto
  then show ?thesis
    unfolding hex_byte_def by (simp add: hex_digit_in)
qed

lemma sprintf_x_hex: "set (sprintf_x bs) \<subseteq> set ldigits"
  unfolding sprintf_x_def by (induction bs) (use hex_byte_in in simp_all)

lemma length_sprintf_x: "length (sprintf_x bs) = 2 * length bs"
  unfolding sprintf_x_def by (induction bs) (simp_all add: hex_byte_def)

lemma length_put_u32: "length (put_u32 v) = 4"
  by (simp add: put_u32_def)

lemma length_state_bytes: "length (state_bytes st) = 32"
  by (induction st rule: state_bytes.induct) (simp add: length_put_u32)

lemma length_sha256_Sum: "length (sha256_Sum b) = 32"
  unfolding sha256_Sum_def by (rule length_state_bytes)

lemma length_digest: "length (sprintf_x (sha256_Sum b)) = 64"
  by (simp add: length_sprintf_x length_sha256_Sum)

lemma sep_not_ldigit: "CHR ''/'' \<notin> set ldigits"
  by (simp add: ldigits_def)

lemma sprintf_x_no_sep: "CHR ''/'' \<notin> set (sprintf_x bs)"
  using sprintf_x_hex [of bs] sep_not_ldigit by blast

lemma rev_Join: "rev (Join d name) = rev name @ CHR ''/'' # rev d"
  by (simp add: Join_def)

lemma parent_dir_Join: "CHR ''/'' \<notin> set name \<Longrightarrow> parent_dir (Join d name) = d"
proof -
  assume a: "CHR ''/'' \<notin> set name"
  have "dropWhile (\<lambda>c. \<not> IsPathSeparator c) (rev name @ CHR ''/'' # rev d) = CHR ''/'' # rev d"
    using a by (subst dropWhile_append2) (auto simp: IsPathSeparator_def)
  then show ?thesis
    unfolding parent_dir_def rev_Join Let_def by simp
qed

lemma split_path_no_sep: "CHR ''/'' \<notin> set k \<Longrightarrow> split_path k = [k]"
  by (induction k) (auto simp: IsPathSeparator_def)

lemma split_path_storage:
  "CHR ''/'' \<notin> set k \<Longrightarrow> split_path (Join storageDir k) = [storageDir, k]"
  by (simp add: Join_def storageDir_def IsPathSeparator_def split_path_no_sep)

lemma Clean_Join_storage:
  assumes "CHR ''/'' \<notin> set k" and "k \<noteq> []" and "k \<noteq> ''.''" and "k \<noteq> ''..''"
  shows "Clean (Join storageDir k) = Join storageDir k"
proof -
  have "clean_elems False [storageDir, k] [] = [storageDir, k]"
    using assms by (simp add: storageDir_def)
  moreover have "Join storageDir k \<noteq> []" "\<not> IsPathSeparator (hd (Join storageDir k))"
    by (simp_all add: Join_def storageDir_def IsPathSeparator_def)
  ultimately show ?thesis
    using assms(1) by (simp add: Clean_def split_path_storage Let_def) (simp add: Join_def)
qed

lemma Base_Join:
  assumes "CHR ''/'' \<notin> set k" and "k \<noteq> []"
  shows "Base (Join d k) = k"
proof -
  from assms obtain c cs where r: "rev k = c # cs" and c: "\<not> IsPathSeparator c"
    by (cases "rev k") (auto simp: IsPathSeparator_def)
  have t: "takeWhile (\<lambda>c. \<not> IsPathSeparator c) (rev k @ CHR ''/'' # rev d) = rev k"
    using assms(1) by (subst takeWhile_append2) (auto simp: IsPathSeparator_def)
  have "dropWhile IsPathSeparator (rev (Join d k)) = rev (Join d k)"
    using r c by (simp add: rev_Join)
  then show ?thesis
    using assms(2) t by (simp add: Base_def Let_def rev_Join Join_def [symmetric]) (simp add: Join_def)
qed

lemma storage_key_shape:
  "CHR ''/'' \<notin> set (sprintf_x (sha256_Sum bs) @ Ext p)"
  "sprintf_x (sha256_Sum bs) @ Ext p \<noteq> []"
  "sprintf_x (sha256_Sum bs) @ Ext p \<noteq> ''.''"
  "sprintf_x (sha256_Sum bs) @ Ext p \<noteq> ''..''"
proof -
  show "CHR ''/'' \<notin> set (sprintf_x (sha256_Sum bs) @ Ext p)"
    using sprintf_x_no_sep Ext_no_sep by simp
  have l: "64 \<le> length (sprintf_x (sha256_Sum bs) @ Ext p)"
    by (simp add: length_digest)
  have "length k < 64 \<Longrightarrow> sprintf_x (sha256_Sum bs) @ Ext p \<noteq> k" for k
    using l by (metis not_le)
  from this [of "[]"] this [of "''.''"] this [of "''..''"]
  show "sprintf_x (sha256_Sum bs) @ Ext p \<noteq> []"
    "sprintf_x (sha256_Sum bs) @ Ext p \<noteq> ''.''"
    "sprintf_x (sha256_Sum bs) @ Ext p \<noteq> ''..''"
    by simp_all
qed

section \<open>Facts about storeFile\<close>

lemma ensure_storage_Inr:
  assumes "ensure_storage e s = Inr s0"
  shows "files s0 = files s" and "actions s0 = actions s" and "versions s0 = versions s"
    and "dirs s0 = (if os_Stat s storageDir then dirs s else storageDir # dirs s)"
    and "os_Stat s0 storageDir"
  using assms
  by (auto simp: ensure_storage_def os_Mkdir_def os_Stat_def is_dir_def is_file_def
           split: if_splits sum.splits)

lemma hashFile_Inr:
  assumes "hashFile e p s = Inr h"
  shows "\<exists>b. map_of (files s) p = Some b \<and> h = sprintf_x (sha256_Sum b) \<and> read_all e p s = Inr b"
  using assms
  by (auto simp: hashFile_def os_Open_def read_all_def split: if_splits sum.splits option.splits)

lemma hashFile_readable:
  assumes "map_of (files s) p = Some b" "\<not> is_dir s p" "\<not> open_fails e p" "\<not> read_fails e p"
  shows "hashFile e p s = Inr (sprintf_x (sha256_Sum b))"
  using assms
  by (simp add: hashFile_def os_Open_def read_all_def os_Stat_def is_file_def)

lemma store_blob_duplicate:
  assumes "os_Stat s (Join storageDir (h @ Ext p))"
  shows "store_blob e f p h s =
           (if action_fails e \<lparr>action_type = ''store_duplicate'', filename = Base p, storage_id = h @ Ext p\<rparr>
            then (Inl DbError, s)
            else (Inr (h @ Ext p),
                  s\<lparr>actions := actions s @
                     [\<lparr>action_type = ''store_duplicate'', filename = Base p, storage_id = h @ Ext p\<rparr>]\<rparr>))"
  using assms by (simp add: store_blob_def Let_def logAction_def TrimSuffix_Ext)

lemma store_blob_Inr:
  assumes "store_blob e f p h s = (Inr k, s')"
  shows "k = h @ Ext p"
  using assms
  by (auto simp: store_blob_def Let_def split: if_splits sum.splits prod.splits option.splits)


lemma read_all_other:
  "f \<noteq> q \<Longrightarrow> read_all e f (s\<lparr>files := AList.update q v (files s)\<rparr>) = read_all e f s"
  by (simp add: read_all_def is_dir_def update_conv')

lemma read_all_Inr_Stat: "read_all e f s = Inr b \<Longrightarrow> os_Stat s f"
  by (auto simp: read_all_def os_Stat_def is_file_def split: if_splits option.splits)

lemma store_blob_fresh_Inr:
  assumes "\<not> os_Stat s (Join storageDir (h @ Ext p))"
    and "read_all e f s = Inr b"
    and "store_blob e f p h s = (Inr k, s')"
  shows "s' = s\<lparr>files := AList.update (Join storageDir (h @ Ext p)) b (files s),
               actions := actions s @
                 [\<lparr>action_type = ''store'', filename = Base p, storage_id = h @ Ext p\<rparr>],
               versions := versions s @
                 [\<lparr>vfilename = Base p,
                   version = int64 ((case select_last_version (versions s) (Base p) of
                                       None \<Rightarrow> 0 | Some v \<Rightarrow> v) + 1),
                   hash = h\<rparr>]\<rparr>"
proof -
  let ?sp = "Join storageDir (h @ Ext p)"
  from assms(1,2) have ne: "f \<noteq> ?sp"
    using read_all_Inr_Stat by blast
  have r: "read_all e f (s\<lparr>files := AList.update ?sp [] (files s)\<rparr>) = Inr b"
    using ne assms(2) by (simp add: read_all_other)
  show ?thesis
    using assms(1,3) r
    by (auto simp: store_blob_def Let_def os_Create_def io_Copy_def logAction_def logVersion_def
          queryLastVersion_def insertVersion_def TrimSuffix_Ext
          split: if_splits sum.splits option.splits)
qed


lemma Join_neq: "Join d k \<noteq> d"
  by (simp add: Join_def)

lemma ensure_storage_Stat:
  "ensure_storage e s = Inr s0 \<Longrightarrow> q \<noteq> storageDir \<Longrightarrow> os_Stat s0 q = os_Stat s q"
  by (auto simp: ensure_storage_def os_Mkdir_def os_Stat_def is_dir_def is_file_def
           split: if_splits sum.splits)

lemma storeFile_Inr_unfold:
  assumes "storeFile e p s = (Inr k, s')"
  shows "\<exists>s0 h. ensure_storage e s = Inr s0 \<and> hashFile e p s0 = Inr h
           \<and> store_blob e p p h s0 = (Inr k, s')"
  using assms
  by (auto simp: storeFile_def os_Open_def split: sum.splits if_splits)

lemma version_step:
  "logVersion e fname h s = Inr s' \<Longrightarrow>
     s' = s\<lparr>versions := versions s @
            [\<lparr>vfilename = fname,
              version = int64 ((case select_last_version (versions s) fname of
                                  None \<Rightarrow> 0 | Some v \<Rightarrow> v) + 1),
              hash = h\<rparr>]\<rparr>"
  by (auto simp: logVersion_def queryLastVersion_def insertVersion_def Let_def
           split: if_splits sum.splits option.splits)

lemma logAction_Inr:
  "logAction e t f k s = Inr s' \<Longrightarrow>
     s' = s\<lparr>actions := actions s @ [\<lparr>action_type = t, filename = f, storage_id = k\<rparr>]\<rparr>"
  by (auto simp: logAction_def Let_def split: if_splits)

lemma store_blob_rows:
  assumes "store_blob e f p h s = (r, s')"
  shows "\<exists>as vs. actions s' = actions s @ as \<and> versions s' = versions s @ vs
           \<and> (\<forall>a\<in>set as. filename a = Base p)
           \<and> (vs = [] \<or> vs = [\<lparr>vfilename = Base p,
                   version = int64 ((case select_last_version (versions s) (Base p) of
                                       None \<Rightarrow> 0 | Some v \<Rightarrow> v) + 1),
                   hash = h\<rparr>])"
  using assms
  by (auto simp: store_blob_def Let_def os_Create_def io_Copy_def TrimSuffix_Ext
        dest!: version_step logAction_Inr
        split: if_splits sum.splits option.splits prod.splits)

lemma storeFile_rows:
  assumes "storeFile e p s = (r, s')"
  shows "\<exists>as vs. actions s' = actions s @ as \<and> versions s' = versions s @ vs
           \<and> (\<forall>a\<in>set as. filename a = Base p)
           \<and> (vs = [] \<or> (\<exists>h. vs = [\<lparr>vfilename = Base p,
                   version = int64 ((case select_last_version (versions s) (Base p) of
                                       None \<Rightarrow> 0 | Some v \<Rightarrow> v) + 1),
                   hash = h\<rparr>]))"
proof (cases "ensure_storage e s")
  case (Inl a)
  with assms show ?thesis by (simp add: storeFile_def)
next
  case (Inr s0)
  note es = ensure_storage_Inr [OF Inr]
  show ?thesis
  proof (cases "\<exists>h. os_Open e p s0 = Inr p \<and> hashFile e p s0 = Inr h")
    case True
    then obtain h where h: "os_Open e p s0 = Inr p" "hashFile e p s0 = Inr h" by blast
    with assms Inr have "store_blob e p p h s0 = (r, s')"
      by (simp add: storeFile_def)
    from store_blob_rows [OF this] show ?thesis
      unfolding es(2,3) by blast
  next
    case False
    with assms Inr have "s' = s0"
      by (auto simp: storeFile_def os_Open_def split: sum.splits if_splits)
    with es show ?thesis by simp
  qed
qed

lemma store_blob_Inr_state:
  assumes "store_blob e f p h s = (Inr k, s')" and "read_all e f s = Inr b"
  shows "k = h @ Ext p \<and> dirs s' = dirs s \<and> os_Stat s' (Join storageDir k)
           \<and> (\<forall>q. os_Stat s q \<longrightarrow> os_Stat s' q)
           \<and> (\<forall>q. q \<noteq> Join storageDir k \<longrightarrow> map_of (files s') q = map_of (files s) q)
           \<and> (\<not> os_Stat s (Join storageDir k) \<longrightarrow> map_of (files s') (Join storageDir k) = Some b)"
proof -
  have k: "k = h @ Ext p" using assms(1) by (rule store_blob_Inr)
  show ?thesis
  proof (cases "os_Stat s (Join storageDir (h @ Ext p))")
    case True
    with assms(1) show ?thesis
      unfolding k
      by (auto simp: store_blob_duplicate os_Stat_def is_file_def is_dir_def split: if_splits)
  next
    case False
    from store_blob_fresh_Inr [OF False assms(2) assms(1)] show ?thesis
      unfolding k
      by (auto simp: os_Stat_def is_file_def is_dir_def update_conv')
  qed
qed

section \<open>The example inputs, evaluated\<close>

lemma no_faults_sel:
  "mkdir_fails no_faults p = False" "open_fails no_faults p = False"
  "read_fails no_faults p = False" "create_fails no_faults p = False"
  "copy_fails no_faults p = None" "remove_fails no_faults p = False"
  "lstat_fails no_faults p = False" "readdir_fails no_faults p = False"
  "action_fails no_faults a = False" "query_fails no_faults f = False"
  "insert_fails no_faults v = False"
  by (simp_all add: no_faults_def)

lemma copy_fault_sel:
  "mkdir_fails copy_fault p = False" "open_fails copy_fault p = False"
  "read_fails copy_fault p = False" "create_fails copy_fault p = False"
  "copy_fails copy_fault p = Some 1"
  by (simp_all add: copy_fault_def no_faults_def)

lemma create_fault_sel:
  "mkdir_fails create_fault p = False" "open_fails create_fault p = False"
  "read_fails create_fault p = False" "create_fails create_fault p = True"
  by (simp_all add: create_fault_def no_faults_def)

lemma Ext_report: "Ext ''docs/report.pdf'' = ''.pdf''"
  by (simp add: Ext_def IsPathSeparator_def)

lemma Base_report: "Base ''docs/report.pdf'' = ''report.pdf''"
  by (simp add: Base_def IsPathSeparator_def)

lemma name_report: "TrimSuffix ''report.pdf'' ''.pdf'' @ ''.pdf'' = ''report.pdf''"
  using TrimSuffix_Ext [of "''docs/report.pdf''"] by (simp add: Ext_report Base_report)

lemma report_key_path:
  "Join storageDir report_key \<noteq> ''docs/report.pdf''"
  "''docs/report.pdf'' \<noteq> Join storageDir report_key"
  "Join storageDir report_key \<noteq> ''docs''"
  "Join storageDir report_key \<noteq> ''storage''"
  "parent_dir (Join storageDir report_key) = ''storage''"
proof -
  show "parent_dir (Join storageDir report_key) = ''storage''"
    using parent_dir_Join [of report_key storageDir]
    by (simp add: report_key_def sprintf_x_no_sep storageDir_def)
qed (simp_all add: Join_def storageDir_def)

lemma report_ensure: "ensure_storage e report_state = (if mkdir_fails e storageDir
     then Inl (Wrapped ''failed to create storage directory'' (OsError ''mkdir'' storageDir))
     else Inr report_state0)"
  by (simp add: ensure_storage_def os_Stat_def is_file_def is_dir_def report_state_def
        report_state0_def os_Mkdir_def storageDir_def parent_ok_def parent_dir_def
        IsPathSeparator_def)

lemma report_open:
  "\<not> open_fails e ''docs/report.pdf'' \<Longrightarrow>
     os_Open e ''docs/report.pdf'' report_state0 = Inr ''docs/report.pdf''"
  by (simp add: os_Open_def os_Stat_def is_file_def report_state0_def)

lemma report_hash:
  "\<not> open_fails e ''docs/report.pdf'' \<Longrightarrow> \<not> read_fails e ''docs/report.pdf'' \<Longrightarrow>
     hashFile e ''docs/report.pdf'' report_state0 = Inr (sprintf_x (sha256_Sum abc))"
  by (rule hashFile_readable) (simp_all add: report_state0_def is_dir_def)

lemma report_blob:
  "store_blob no_faults ''docs/report.pdf'' ''docs/report.pdf'' (sprintf_x (sha256_Sum abc))
     report_state0 = (Inr report_key, report_stored)"
  by (simp add: read_all_def os_Stat_def is_file_def is_dir_def report_state0_def
        report_stored_def no_faults_sel store_blob_def Let_def Ext_report Base_report
        name_report os_Create_def parent_ok_def report_key_path io_Copy_def logAction_def
        logVersion_def queryLastVersion_def insertVersion_def select_last_version_def
        int64_def report_key_def [symmetric])

lemma report_first_store:
  "storeFile no_faults ''docs/report.pdf'' report_state = (Inr report_key, report_stored)"
  by (simp add: storeFile_def report_ensure report_open report_hash report_blob no_faults_sel)

lemma report_absent: "\<not> os_Stat report_state (Join storageDir report_key)"
  by (simp add: os_Stat_def is_file_def is_dir_def report_state_def report_key_path)

section \<open>Claims about storeFile\<close>

text \<open>
  C8. Whenever \<open>storeFile\<close> succeeds, the key it returns is the hexadecimal
  digest of the bytes of the source file followed by the extension of the
  source path. The path of the entry is the storage directory, a separator
  and that key, as \<^verbatim>\<open>filepath.Join\<close> cleans it: its directory is the storage
  directory and its name is the key. That entry exists afterwards, and when it
  was not there before the call it holds the bytes of the source.
\<close>

theorem storeFile_storageKey:
  assumes "storeFile e p s = (Inr k, s')"
  shows "\<exists>b. map_of (files s) p = Some b \<and> k = sprintf_x (sha256_Sum b) @ Ext p
           \<and> Join storageDir k = ''storage/'' @ k
           \<and> Clean (Join storageDir k) = Join storageDir k
           \<and> parent_dir (Join storageDir k) = storageDir
           \<and> Base (Join storageDir k) = k
           \<and> os_Stat s' (Join storageDir k)
           \<and> (\<not> os_Stat s (Join storageDir k) \<longrightarrow> map_of (files s') (Join storageDir k) = Some b)"
proof -
  from storeFile_Inr_unfold [OF assms] obtain s0 h where
    es: "ensure_storage e s = Inr s0" and hf: "hashFile e p s0 = Inr h"
    and sb: "store_blob e p p h s0 = (Inr k, s')" by blast
  from hashFile_Inr [OF hf] obtain b where
    b: "map_of (files s0) p = Some b" "h = sprintf_x (sha256_Sum b)" "read_all e p s0 = Inr b"
    by blast
  note st = store_blob_Inr_state [OF sb b(3)]
  from st b(2) have k: "k = sprintf_x (sha256_Sum b) @ Ext p" by simp
  note shape = storage_key_shape [of b p, folded k]
  have "os_Stat s0 (Join storageDir k) = os_Stat s (Join storageDir k)"
    using es by (rule ensure_storage_Stat) (rule Join_neq)
  moreover have "Join storageDir k = ''storage/'' @ k"
    by (simp add: Join_def storageDir_def)
  moreover note Clean_Join_storage [OF shape] parent_dir_Join [OF shape(1), of storageDir]
    Base_Join [OF shape(1,2), of storageDir]
  ultimately show ?thesis
    using st b k ensure_storage_Inr(1) [OF es] by auto
qed

theorem storeFile_storageKey_witness:
  "storeFile no_faults ''docs/report.pdf'' report_state = (Inr report_key, report_stored)
   \<and> \<not> os_Stat report_state (Join storageDir report_key)
   \<and> report_key = sprintf_x (sha256_Sum abc) @ Ext ''docs/report.pdf''
   \<and> Join storageDir report_key = ''storage/'' @ report_key
   \<and> Clean (Join storageDir report_key) = Join storageDir report_key
   \<and> parent_dir (Join storageDir report_key) = storageDir
   \<and> Base (Join storageDir report_key) = report_key
   \<and> os_Stat report_stored (Join storageDir report_key)
   \<and> map_of (files report_stored) (Join storageDir report_key) = Some abc"
  using storeFile_storageKey [OF report_first_store] report_first_store report_absent
  by (auto simp: report_state_def)

lemma report_stored_ensure: "ensure_storage e report_stored = Inr report_stored"
  by (simp add: ensure_storage_def os_Stat_def is_dir_def report_stored_def storageDir_def)

lemma report_stored_hash:
  "hashFile no_faults ''docs/report.pdf'' report_stored = Inr (sprintf_x (sha256_Sum abc))"
  by (rule hashFile_readable) (simp_all add: report_stored_def is_dir_def no_faults_sel)

lemma report_stored_open:
  "os_Open no_faults ''docs/report.pdf'' report_stored = Inr ''docs/report.pdf''"
  by (simp add: os_Open_def os_Stat_def is_file_def report_stored_def no_faults_sel)

lemma report_stored_present: "os_Stat report_stored (Join storageDir report_key)"
  by (simp add: os_Stat_def is_file_def report_stored_def report_key_path)

lemma report_second_store:
  "storeFile no_faults ''docs/report.pdf'' report_stored = (Inr report_key, report_twice)"
proof -
  have "os_Stat report_stored
          (Join storageDir (sprintf_x (sha256_Sum abc) @ Ext ''docs/report.pdf''))"
    using report_stored_present by (simp add: report_key_def Ext_report)
  then show ?thesis
    by (simp add: storeFile_def report_stored_ensure report_stored_open report_stored_hash
          store_blob_duplicate no_faults_sel Ext_report Base_report report_twice_def
          report_key_def)
qed

lemma report_absent0: "\<not> os_Stat report_state0 (Join storageDir report_key)"
  by (simp add: os_Stat_def is_file_def is_dir_def report_state0_def report_key_path)

lemma report_copy_fault_store:
  "storeFile copy_fault ''docs/report.pdf'' report_state =
     (Inl (Wrapped ''failed to copy file'' (OsError ''write'' (Join storageDir report_key))),
      report_truncated)"
proof -
  have t: "take 1 abc = [0x61]"
    by (simp add: abc_def)
  have "store_blob copy_fault ''docs/report.pdf'' ''docs/report.pdf''
          (sprintf_x (sha256_Sum abc)) report_state0 =
        (Inl (Wrapped ''failed to copy file'' (OsError ''write'' (Join storageDir report_key))),
         report_truncated)"
    using t
    by (simp add: read_all_def os_Stat_def is_file_def is_dir_def report_state0_def
          report_truncated_def copy_fault_sel store_blob_def Let_def Ext_report
          os_Create_def parent_ok_def report_key_path io_Copy_def
          report_key_def [symmetric])
  then show ?thesis
    by (simp add: storeFile_def report_ensure report_open report_hash copy_fault_sel)
qed

lemma report_create_fault_store:
  "storeFile create_fault ''docs/report.pdf'' report_state =
     (Inl (Wrapped ''failed to create destination file''
             (OsError ''open'' (Join storageDir report_key))),
      report_state0)"
proof -
  have "store_blob create_fault ''docs/report.pdf'' ''docs/report.pdf''
          (sprintf_x (sha256_Sum abc)) report_state0 =
        (Inl (Wrapped ''failed to create destination file''
                (OsError ''open'' (Join storageDir report_key))),
         report_state0)"
    using report_absent0
    by (simp add: create_fault_sel store_blob_def Let_def Ext_report os_Create_def
          report_key_def [symmetric])
  then show ?thesis
    by (simp add: storeFile_def report_ensure report_open report_hash create_fault_sel)
qed

text \<open>
  C10. When the storage directory is in place (\<open>ensure_storage\<close> has returned)
  and the source cannot be opened or its digest cannot be computed,
  \<open>storeFile\<close> returns an error; no file is written, no row is appended to
  either table, and the only change is the storage directory, created when it
  did not exist before the source was looked at.
\<close>

theorem storeFile_source_unreadable:
  assumes "ensure_storage e s = Inr s0"
    and "os_Open e p s0 = Inl err \<or> hashFile e p s0 = Inl err"
  shows "(\<exists>err'. storeFile e p s = (Inl err', s0))
           \<and> files s0 = files s \<and> actions s0 = actions s \<and> versions s0 = versions s
           \<and> dirs s0 = (if os_Stat s storageDir then dirs s else storageDir # dirs s)"
  using assms ensure_storage_Inr [OF assms(1)]
  by (auto simp: storeFile_def split: sum.splits)

theorem storeFile_source_unreadable_witness:
  "ensure_storage no_faults report_state = Inr report_state0
   \<and> os_Open no_faults ''missing.txt'' report_state0 = Inl (OsError ''open'' ''missing.txt'')
   \<and> \<not> os_Stat report_state storageDir
   \<and> storeFile no_faults ''missing.txt'' report_state =
         (Inl (Wrapped ''failed to open source file'' (OsError ''open'' ''missing.txt'')),
          report_state0)
   \<and> files report_state0 = files report_state
   \<and> actions report_state0 = actions report_state
   \<and> versions report_state0 = versions report_state
   \<and> dirs report_state0 = storageDir # dirs report_state"
proof -
  have e: "ensure_storage no_faults report_state = Inr report_state0"
    by (simp add: report_ensure no_faults_sel)
  have o: "os_Open no_faults ''missing.txt'' report_state0 = Inl (OsError ''open'' ''missing.txt'')"
    by (simp add: os_Open_def os_Stat_def is_file_def is_dir_def report_state0_def)
  have n: "\<not> os_Stat report_state storageDir"
    by (simp add: os_Stat_def is_file_def is_dir_def report_state_def storageDir_def)
  have "storeFile no_faults ''missing.txt'' report_state =
         (Inl (Wrapped ''failed to open source file'' (OsError ''open'' ''missing.txt'')),
          report_state0)"
    by (simp add: storeFile_def e o)
  with storeFile_source_unreadable [OF e, of "''missing.txt''" "OsError ''open'' ''missing.txt''"]
    e o n
  show ?thesis by simp
qed

text \<open>
  C1, as the code has it. A store of a file whose content and extension are
  those of a file stored before returns the same key, leaves every file as it
  is, appends the action \<open>store_duplicate\<close> under the base name of the new
  source, and appends no row to the versions table. When the first store
  created the entry, it appended one \<open>store\<close> action and one version row: two
  stores of the same content leave one version row and two action rows.
\<close>

theorem storeFile_duplicate:
  assumes "storeFile e p s = (Inr k, s1)"
    and "map_of (files s) p = Some b"
    and "map_of (files s1) q = Some b" and "\<not> is_dir s1 q"
    and "\<not> open_fails e' q" and "\<not> read_fails e' q"
    and "Ext q = Ext p"
    and "\<not> action_fails e'
            \<lparr>action_type = ''store_duplicate'', filename = Base q, storage_id = k\<rparr>"
  shows "storeFile e' q s1 =
           (Inr k, s1\<lparr>actions := actions s1 @
              [\<lparr>action_type = ''store_duplicate'', filename = Base q, storage_id = k\<rparr>]\<rparr>)
         \<and> (\<not> os_Stat s (Join storageDir k) \<longrightarrow>
              actions s1 = actions s @
                [\<lparr>action_type = ''store'', filename = Base p, storage_id = k\<rparr>]
              \<and> versions s1 = versions s @
                [\<lparr>vfilename = Base p,
                  version = int64 ((case select_last_version (versions s) (Base p) of
                                      None \<Rightarrow> 0 | Some v \<Rightarrow> v) + 1),
                  hash = sprintf_x (sha256_Sum b)\<rparr>])"
proof -
  from storeFile_Inr_unfold [OF assms(1)] obtain s0 h where
    es: "ensure_storage e s = Inr s0" and hf: "hashFile e p s0 = Inr h"
    and sb: "store_blob e p p h s0 = (Inr k, s1)" by blast
  note e0 = ensure_storage_Inr [OF es]
  from hashFile_Inr [OF hf] assms(2) e0(1) have
    h: "h = sprintf_x (sha256_Sum b)" and rd: "read_all e p s0 = Inr b"
    by auto
  note st = store_blob_Inr_state [OF sb rd]
  from st have k: "k = h @ Ext p" and here: "os_Stat s1 (Join storageDir k)"
    and root: "os_Stat s1 storageDir"
    using e0(5) by auto
  have en: "ensure_storage e' s1 = Inr s1"
    using root by (simp add: ensure_storage_def)
  have op: "os_Open e' q s1 = Inr q"
    using assms(3,5) by (simp add: os_Open_def os_Stat_def is_file_def)
  have hq: "hashFile e' q s1 = Inr h"
    unfolding h using assms(3,4,5,6) by (rule hashFile_readable)
  have "store_blob e' q q h s1 =
          (Inr k, s1\<lparr>actions := actions s1 @
              [\<lparr>action_type = ''store_duplicate'', filename = Base q, storage_id = k\<rparr>]\<rparr>)"
    using here assms(8) unfolding k assms(7) [symmetric]
    by (simp add: store_blob_duplicate)
  then have second: "storeFile e' q s1 =
          (Inr k, s1\<lparr>actions := actions s1 @
              [\<lparr>action_type = ''store_duplicate'', filename = Base q, storage_id = k\<rparr>]\<rparr>)"
    by (simp add: storeFile_def en op hq)
  have first: "actions s1 = actions s @
                [\<lparr>action_type = ''store'', filename = Base p, storage_id = k\<rparr>]
              \<and> versions s1 = versions s @
                [\<lparr>vfilename = Base p,
                  version = int64 ((case select_last_version (versions s) (Base p) of
                                      None \<Rightarrow> 0 | Some v \<Rightarrow> v) + 1),
                  hash = sprintf_x (sha256_Sum b)\<rparr>]"
    if "\<not> os_Stat s (Join storageDir k)"
  proof -
    have "os_Stat s0 (Join storageDir k) = os_Stat s (Join storageDir k)"
      using es by (rule ensure_storage_Stat) (rule Join_neq)
    with that have "\<not> os_Stat s0 (Join storageDir (h @ Ext p))"
      by (simp add: k)
    from store_blob_fresh_Inr [OF this rd sb] show ?thesis
      by (simp add: e0 k h)
  qed
  from second first show ?thesis by blast
qed

text \<open>
  C1 as stated fails: the second store of \<^verbatim>\<open>docs/report.pdf\<close> returns the key of
  the first and appends the action \<open>store_duplicate\<close>, and the versions table
  still holds version 1 alone.
\<close>

theorem storeFile_duplicate_counterexample:
  "storeFile no_faults ''docs/report.pdf'' report_state = (Inr report_key, report_stored)
   \<and> storeFile no_faults ''docs/report.pdf'' report_stored = (Inr report_key, report_twice)
   \<and> versions report_twice = versions report_stored
   \<and> version_numbers ''report.pdf'' (versions report_twice) = [1]
   \<and> version_numbers ''report.pdf'' (versions report_twice) \<noteq> [1, 2]"
proof -
  have "versions report_twice = versions report_stored"
    by (simp add: report_twice_def)
  moreover have "version_numbers ''report.pdf'' (versions report_stored) = [1]"
    by (simp add: report_stored_def version_numbers_def)
  ultimately show ?thesis
    using report_first_store report_second_store by simp
qed

theorem storeFile_duplicate_witness:
  "storeFile no_faults ''docs/report.pdf'' report_state = (Inr report_key, report_stored)
   \<and> map_of (files report_state) ''docs/report.pdf'' = Some abc
   \<and> map_of (files report_stored) ''docs/report.pdf'' = Some abc
   \<and> \<not> is_dir report_stored ''docs/report.pdf''
   \<and> \<not> os_Stat report_state (Join storageDir report_key)
   \<and> storeFile no_faults ''docs/report.pdf'' report_stored = (Inr report_key, report_twice)
   \<and> files report_twice = files report_stored
   \<and> versions report_twice = versions report_stored
   \<and> actions report_stored = actions report_state @
         [\<lparr>action_type = ''store'', filename = ''report.pdf'', storage_id = report_key\<rparr>]
   \<and> versions report_stored = versions report_state @
         [\<lparr>vfilename = ''report.pdf'', version = 1, hash = sprintf_x (sha256_Sum abc)\<rparr>]"
proof -
  have a: "map_of (files report_state) ''docs/report.pdf'' = Some abc"
    by (simp add: report_state_def)
  have b: "map_of (files report_stored) ''docs/report.pdf'' = Some abc"
    by (simp add: report_stored_def)
  have c: "\<not> is_dir report_stored ''docs/report.pdf''"
    by (simp add: is_dir_def report_stored_def)
  have d: "\<not> action_fails no_faults
              \<lparr>action_type = ''store_duplicate'', filename = Base ''docs/report.pdf'',
                storage_id = report_key\<rparr>"
    by (simp add: no_faults_sel)
  from storeFile_duplicate [OF report_first_store a b c _ _ refl d] report_absent
  have "storeFile no_faults ''docs/report.pdf'' report_stored =
          (Inr report_key, report_stored\<lparr>actions := actions report_stored @
              [\<lparr>action_type = ''store_duplicate'', filename = Base ''docs/report.pdf'',
                storage_id = report_key\<rparr>]\<rparr>)
        \<and> actions report_stored = actions report_state @
              [\<lparr>action_type = ''store'', filename = Base ''docs/report.pdf'',
                storage_id = report_key\<rparr>]
        \<and> versions report_stored = versions report_state @
              [\<lparr>vfilename = Base ''docs/report.pdf'',
                version = int64 ((case select_last_version (versions report_state)
                                         (Base ''docs/report.pdf'') of
                                    None \<Rightarrow> 0 | Some v \<Rightarrow> v) + 1),
                hash = sprintf_x (sha256_Sum abc)\<rparr>]"
    by (simp add: no_faults_sel)
  then show ?thesis
    using a b c report_absent report_first_store
    by (simp add: Base_report report_twice_def report_state_def select_last_version_def
          int64_def)
qed

text \<open>
  C4 as stated fails: when the copy to the new entry fails after one byte,
  \<open>storeFile\<close> returns the copy error and the entry stays under its key with
  that one byte of the three of the source.
\<close>

theorem storeFile_copy_failure_counterexample:
  "storeFile copy_fault ''docs/report.pdf'' report_state =
     (Inl (Wrapped ''failed to copy file'' (OsError ''write'' (Join storageDir report_key))),
      report_truncated)
   \<and> os_Stat report_truncated (Join storageDir report_key)
   \<and> map_of (files report_truncated) (Join storageDir report_key) = Some [0x61]
   \<and> map_of (files report_truncated) ''docs/report.pdf'' = Some [0x61, 0x62, 0x63]"
  by (simp add: report_copy_fault_store os_Stat_def is_file_def report_truncated_def
        report_key_path abc_def)

text \<open>
  C4, as the code has it. In a call that reaches the creation of a new entry
  (the storage directory is in place, the source is hashed, no entry has the
  key): when the creation fails, \<open>storeFile\<close> returns the creation error and
  the state is the one before the creation, with no entry under the key; when
  the creation succeeds and the copy fails after \<open>n\<close> bytes, \<open>storeFile\<close>
  returns the copy error and the entry under the key holds the first \<open>n\<close> bytes
  of the source. Neither table gets a row.
\<close>

theorem storeFile_write_error:
  assumes "ensure_storage e s = Inr s0" and "hashFile e p s0 = Inr h"
    and "\<not> os_Stat s0 (Join storageDir (h @ Ext p))"
  shows "(\<forall>err. os_Create e (Join storageDir (h @ Ext p)) s0 = Inl err \<longrightarrow>
            storeFile e p s = (Inl (Wrapped ''failed to create destination file'' err), s0))
         \<and> (\<forall>s1 n. os_Create e (Join storageDir (h @ Ext p)) s0 = Inr s1 \<longrightarrow>
               copy_fails e (Join storageDir (h @ Ext p)) = Some n \<longrightarrow>
               (\<exists>b. map_of (files s) p = Some b
                  \<and> storeFile e p s =
                      (Inl (Wrapped ''failed to copy file''
                              (OsError ''write'' (Join storageDir (h @ Ext p)))),
                       s0\<lparr>files := AList.update (Join storageDir (h @ Ext p)) (take n b)
                                     (files s0)\<rparr>)))"
proof -
  let ?sp = "Join storageDir (h @ Ext p)"
  from hashFile_Inr [OF assms(2)] obtain b where
    b: "map_of (files s0) p = Some b" "read_all e p s0 = Inr b" by blast
  from assms(2) have op: "os_Open e p s0 = Inr p"
    by (auto simp: hashFile_def os_Open_def split: if_splits sum.splits)
  have sf: "storeFile e p s = store_blob e p p h s0"
    by (simp add: storeFile_def assms(1,2) op)
  have ne: "p \<noteq> ?sp"
    using read_all_Inr_Stat [OF b(2)] assms(3) by metis
  have r: "read_all e p (s0\<lparr>files := AList.update ?sp [] (files s0)\<rparr>) = Inr b"
    using ne b(2) by (simp add: read_all_other)
  have 1: "storeFile e p s = (Inl (Wrapped ''failed to create destination file'' err), s0)"
    if "os_Create e ?sp s0 = Inl err" for err
    using that assms(3) by (simp add: sf store_blob_def Let_def)
  have 2: "storeFile e p s =
             (Inl (Wrapped ''failed to copy file'' (OsError ''write'' ?sp)),
              s0\<lparr>files := AList.update ?sp (take n b) (files s0)\<rparr>)"
    if "os_Create e ?sp s0 = Inr s1" "copy_fails e ?sp = Some n" for s1 n
  proof -
    from that(1) have s1: "s1 = s0\<lparr>files := AList.update ?sp [] (files s0)\<rparr>"
      by (auto simp: os_Create_def split: if_splits)
    show ?thesis
      using assms(3) that r
      by (simp add: sf store_blob_def Let_def io_Copy_def s1)
  qed
  from b(1) ensure_storage_Inr(1) [OF assms(1)] have "map_of (files s) p = Some b"
    by simp
  with 1 2 show ?thesis by blast
qed

theorem storeFile_write_error_witness:
  "ensure_storage create_fault report_state = Inr report_state0
   \<and> hashFile create_fault ''docs/report.pdf'' report_state0 = Inr (sprintf_x (sha256_Sum abc))
   \<and> \<not> os_Stat report_state0 (Join storageDir report_key)
   \<and> os_Create create_fault (Join storageDir report_key) report_state0 =
         Inl (OsError ''open'' (Join storageDir report_key))
   \<and> storeFile create_fault ''docs/report.pdf'' report_state =
         (Inl (Wrapped ''failed to create destination file''
                 (OsError ''open'' (Join storageDir report_key))), report_state0)
   \<and> ensure_storage copy_fault report_state = Inr report_state0
   \<and> hashFile copy_fault ''docs/report.pdf'' report_state0 = Inr (sprintf_x (sha256_Sum abc))
   \<and> os_Create copy_fault (Join storageDir report_key) report_state0 =
         Inr (report_state0\<lparr>files := AList.update (Join storageDir report_key) []
                                        (files report_state0)\<rparr>)
   \<and> copy_fails copy_fault (Join storageDir report_key) = Some 1
   \<and> storeFile copy_fault ''docs/report.pdf'' report_state =
         (Inl (Wrapped ''failed to copy file'' (OsError ''write'' (Join storageDir report_key))),
          report_state0\<lparr>files := AList.update (Join storageDir report_key) (take 1 abc)
                                     (files report_state0)\<rparr>)"
proof -
  have k: "sprintf_x (sha256_Sum abc) @ Ext ''docs/report.pdf'' = report_key"
    by (simp add: report_key_def Ext_report)
  have e1: "ensure_storage create_fault report_state = Inr report_state0"
    by (simp add: report_ensure create_fault_sel)
  have h1: "hashFile create_fault ''docs/report.pdf'' report_state0
              = Inr (sprintf_x (sha256_Sum abc))"
    by (simp add: report_hash create_fault_sel)
  have c1: "os_Create create_fault (Join storageDir report_key) report_state0 =
              Inl (OsError ''open'' (Join storageDir report_key))"
    by (simp add: os_Create_def create_fault_sel)
  have e2: "ensure_storage copy_fault report_state = Inr report_state0"
    by (simp add: report_ensure copy_fault_sel)
  have h2: "hashFile copy_fault ''docs/report.pdf'' report_state0
              = Inr (sprintf_x (sha256_Sum abc))"
    by (simp add: report_hash copy_fault_sel)
  have c2: "os_Create copy_fault (Join storageDir report_key) report_state0 =
              Inr (report_state0\<lparr>files := AList.update (Join storageDir report_key) []
                                             (files report_state0)\<rparr>)"
    by (simp add: os_Create_def copy_fault_sel parent_ok_def report_key_path is_dir_def
          report_state0_def)
  have n: "\<not> os_Stat report_state0
               (Join storageDir (sprintf_x (sha256_Sum abc) @ Ext ''docs/report.pdf''))"
    using report_absent0 by (simp add: k)
  have m: "map_of (files report_state) ''docs/report.pdf'' = Some abc"
    by (simp add: report_state_def)
  from storeFile_write_error [OF e1 h1 n] storeFile_write_error [OF e2 h2 n]
  show ?thesis
    using e1 h1 c1 e2 h2 c2 report_absent0 m
    by (simp add: k copy_fault_sel)
qed

section \<open>Facts about the versions table\<close>

lemma select_last_version_numbers:
  "select_last_version rows f =
     (case version_numbers f rows of [] \<Rightarrow> None | v # vs \<Rightarrow> Some (fold max vs v))"
  by (simp add: select_last_version_def version_numbers_def split: list.splits)

lemma fold_max_upto: "fold max (map int [Suc a..<Suc n]) (int a) = int (max a n)"
proof (induction n)
  case 0
  then show ?case by simp
next
  case (Suc n)
  show ?case
  proof (cases "a \<le> n")
    case True
    then have "[Suc a..<Suc (Suc n)] = [Suc a..<Suc n] @ [Suc n]" by simp
    with Suc True show ?thesis by (simp add: max_def)
  next
    case False
    then show ?thesis by (simp add: max_def)
  qed
qed

lemma last_version_upto:
  assumes "version_numbers f rows = map int [1..<Suc n]"
  shows "(case select_last_version rows f of None \<Rightarrow> 0 | Some v \<Rightarrow> v) = int n"
proof (cases n)
  case 0
  with assms show ?thesis by (simp add: select_last_version_numbers)
next
  case (Suc m)
  then have "[1..<Suc n] = 1 # [Suc 1..<Suc n]"
    by (simp add: upt_conv_Cons)
  with assms have "select_last_version rows f = Some (fold max (map int [Suc 1..<Suc n]) (int 1))"
    by (simp add: select_last_version_numbers)
  also have "\<dots> = Some (int (max 1 n))"
    by (simp only: fold_max_upto)
  finally show ?thesis using Suc by (simp add: max_def)
qed

lemma int64_small: "0 \<le> k \<Longrightarrow> k < 2 ^ 63 \<Longrightarrow> int64 k = k"
  unfolding int64_def by (rule signed_take_bit_int_eq_self) simp_all

lemma version_numbers_append:
  "version_numbers f (rows @ rows') = version_numbers f rows @ version_numbers f rows'"
  by (simp add: version_numbers_def)

lemma store_version_step:
  assumes "storeFile e p s = (r, s')"
    and "version_numbers f (versions s) = map int [1..<Suc n]"
    and "int n + 1 < 2 ^ 63"
  shows "version_numbers f (versions s') = map int [1..<Suc n]
         \<or> version_numbers f (versions s') = map int [1..<Suc (Suc n)]"
proof -
  from storeFile_rows [OF assms(1)] obtain vs where
    vs: "versions s' = versions s @ vs"
    and c: "vs = [] \<or> (\<exists>h. vs = [\<lparr>vfilename = Base p,
                   version = int64 ((case select_last_version (versions s) (Base p) of
                                       None \<Rightarrow> 0 | Some v \<Rightarrow> v) + 1),
                   hash = h\<rparr>])"
    by blast
  show ?thesis
  proof (cases "vs \<noteq> [] \<and> Base p = f")
    case True
    with c obtain h where
      "vs = [\<lparr>vfilename = f, version = int64 (int n + 1), hash = h\<rparr>]"
      using last_version_upto [OF assms(2)] by auto
    then have "version_numbers f vs = [int n + 1]"
      using assms(3) by (simp add: version_numbers_def int64_small)
    with vs assms(2) show ?thesis
      by (simp add: version_numbers_append)
  next
    case False
    with c have "version_numbers f vs = []"
      by (auto simp: version_numbers_def)
    with vs assms(2) show ?thesis
      by (simp add: version_numbers_append)
  qed
qed

lemma walk_loop_keeps:
  "walk_loop e ps hs s = (r, hs', s') \<Longrightarrow> versions s' = versions s \<and> dirs s' = dirs s"
proof (induction ps arbitrary: hs s)
  case Nil
  then show ?case by simp
next
  case (Cons p ps)
  then show ?case
    by (auto simp: os_Remove_def dest!: logAction_Inr
          split: if_splits sum.splits option.splits)
qed

lemma Walk_keeps:
  "Walk e d s = (r, hs, s') \<Longrightarrow> versions s' = versions s \<and> dirs s' = dirs s"
  by (auto simp: Walk_def dest: walk_loop_keeps split: if_splits sum.splits)

lemma deduplicateFiles_versions:
  "versions (snd (deduplicateFiles e sel d s)) = versions s"
proof -
  obtain r hs s' where w: "Walk e d s = (r, hs, s')"
    by (cases "Walk e d s") auto
  then have "versions s' = versions s"
    by (simp add: Walk_keeps)
  with w show ?thesis
    by (simp add: deduplicateFiles_def split: option.splits select_case.splits)
qed

lemma run_calls_versions:
  "version_numbers f (versions s) = map int [1..<Suc n] \<Longrightarrow>
   int n + int (length cs) < 2 ^ 63 \<Longrightarrow>
   \<exists>m. n \<le> m \<and> m \<le> n + length cs
       \<and> version_numbers f (versions (run_calls cs s)) = map int [1..<Suc m]"
proof (induction cs arbitrary: s n)
  case Nil
  then show ?case by auto
next
  case (Cons c cs)
  have "\<exists>k. n \<le> k \<and> k \<le> Suc n
          \<and> version_numbers f (versions (run_call c s)) = map int [1..<Suc k]"
  proof (cases c)
    case (Store e p)
    obtain r s' where st: "storeFile e p s = (r, s')"
      by (cases "storeFile e p s") auto
    from Cons.prems(2) have "int n + 1 < 2 ^ 63" by simp
    from store_version_step [OF st Cons.prems(1) this] st Store show ?thesis
      by (metis le_Suc_eq order_refl run_call.simps(1) snd_conv) 
  next
    case (Deduplicate e sel d)
    with Cons.prems(1) show ?thesis
      by (auto simp: deduplicateFiles_versions)
  qed
  then obtain k where k: "n \<le> k" "k \<le> Suc n"
    "version_numbers f (versions (run_call c s)) = map int [1..<Suc k]" by blast
  from k(2) Cons.prems(2) have "int k + int (length cs) < 2 ^ 63" by simp
  from Cons.IH [OF k(3) this] obtain m where
    "k \<le> m" "m \<le> k + length cs"
    "version_numbers f (versions (run_calls cs (run_call c s))) = map int [1..<Suc m]"
    by blast
  with k show ?case
    by (intro exI [of _ m]) simp
qed

text \<open>A call of \<open>logVersion\<close> that is not interrupted is its two statements in a row.\<close>

lemma logVersion_two_steps:
  "(case lv_step e (fname, h, AtQuery) s of (c, s1) \<Rightarrow> lv_step e c s1) =
     (case logVersion e fname h s of
        Inl err \<Rightarrow> ((fname, h, Returned (Some err)), s)
      | Inr s' \<Rightarrow> ((fname, h, Returned None), s'))"
  by (simp add: logVersion_def split: sum.splits)

lemma sha256_abc: "sprintf_x (sha256_Sum abc) = abc_digest"
  unfolding abc_def abc_digest_def by code_simp

lemma sha256_empty: "sprintf_x (sha256_Sum []) = empty_digest"
  unfolding empty_digest_def by code_simp

lemma x_key_distinct: "x_key [] \<noteq> x_key abc"
  by (simp add: x_key_def sha256_abc sha256_empty abc_digest_def empty_digest_def)

lemma x_paths:
  "Ext ''a/x.txt'' = ''.txt''" "Base ''a/x.txt'' = ''x.txt''"
  "Ext ''b/x.txt'' = ''.txt''" "Base ''b/x.txt'' = ''x.txt''"
  by (simp_all add: Ext_def Base_def IsPathSeparator_def)

lemma x_key_path:
  "Join storageDir (x_key b) \<noteq> ''a/x.txt''" "Join storageDir (x_key b) \<noteq> ''b/x.txt''"
  "''a/x.txt'' \<noteq> Join storageDir (x_key b)" "''b/x.txt'' \<noteq> Join storageDir (x_key b)"
  "Join storageDir (x_key b) \<noteq> ''a''" "Join storageDir (x_key b) \<noteq> ''b''"
  "Join storageDir (x_key b) \<noteq> ''storage''"
  "parent_dir (Join storageDir (x_key b)) = ''storage''"
  "(Join storageDir (x_key b) = Join storageDir (x_key c)) = (x_key b = x_key c)"
proof -
  show "parent_dir (Join storageDir (x_key b)) = ''storage''"
    using parent_dir_Join [of "x_key b" storageDir]
    by (simp add: x_key_def sprintf_x_no_sep storageDir_def)
qed (simp_all add: Join_def storageDir_def)

lemma two_dirs_first_store:
  "storeFile no_faults ''a/x.txt'' two_dirs_state = (Inr (x_key abc), two_dirs_stored1)"
proof -
  let ?s0 = "two_dirs_state\<lparr>dirs := [''storage'', ''a'', ''b'']\<rparr>"
  have e: "ensure_storage no_faults two_dirs_state = Inr ?s0"
    by (simp add: ensure_storage_def os_Stat_def is_file_def is_dir_def two_dirs_state_def
          os_Mkdir_def storageDir_def parent_ok_def parent_dir_def IsPathSeparator_def
          no_faults_sel)
  have o: "os_Open no_faults ''a/x.txt'' ?s0 = Inr ''a/x.txt''"
    by (simp add: os_Open_def os_Stat_def is_file_def two_dirs_state_def no_faults_sel)
  have h: "hashFile no_faults ''a/x.txt'' ?s0 = Inr (sprintf_x (sha256_Sum abc))"
    by (rule hashFile_readable) (simp_all add: two_dirs_state_def is_dir_def no_faults_sel)
  have n: "TrimSuffix ''x.txt'' ''.txt'' @ ''.txt'' = ''x.txt''"
    using TrimSuffix_Ext [of "''a/x.txt''"] by (simp add: x_paths)
  have b: "store_blob no_faults ''a/x.txt'' ''a/x.txt'' (sprintf_x (sha256_Sum abc)) ?s0 =
             (Inr (x_key abc), two_dirs_stored1)"
    by (simp add: read_all_def os_Stat_def is_file_def is_dir_def two_dirs_state_def
          two_dirs_stored1_def no_faults_sel store_blob_def Let_def x_paths n os_Create_def
          parent_ok_def x_key_path io_Copy_def logAction_def logVersion_def
          queryLastVersion_def insertVersion_def select_last_version_def int64_def
          x_key_def [symmetric])
  show ?thesis
    by (simp add: storeFile_def e o h b)
qed

lemma two_dirs_second_store:
  "storeFile no_faults ''b/x.txt'' two_dirs_stored1 = (Inr (x_key []), two_dirs_stored2)"
proof -
  have e: "ensure_storage no_faults two_dirs_stored1 = Inr two_dirs_stored1"
    by (simp add: ensure_storage_def os_Stat_def is_dir_def two_dirs_stored1_def storageDir_def)
  have o: "os_Open no_faults ''b/x.txt'' two_dirs_stored1 = Inr ''b/x.txt''"
    by (simp add: os_Open_def os_Stat_def is_file_def two_dirs_stored1_def no_faults_sel)
  have h: "hashFile no_faults ''b/x.txt'' two_dirs_stored1 = Inr (sprintf_x (sha256_Sum []))"
    by (rule hashFile_readable)
       (simp_all add: two_dirs_stored1_def is_dir_def no_faults_sel x_key_path)
  have n: "TrimSuffix ''x.txt'' ''.txt'' @ ''.txt'' = ''x.txt''"
    using TrimSuffix_Ext [of "''a/x.txt''"] by (simp add: x_paths)
  have b: "store_blob no_faults ''b/x.txt'' ''b/x.txt'' (sprintf_x (sha256_Sum [])) two_dirs_stored1 =
             (Inr (x_key []), two_dirs_stored2)"
    using x_key_distinct
    by (simp add: read_all_def os_Stat_def is_file_def is_dir_def
          two_dirs_stored1_def two_dirs_stored2_def no_faults_sel store_blob_def Let_def
          x_paths n os_Create_def parent_ok_def x_key_path io_Copy_def logAction_def
          logVersion_def queryLastVersion_def insertVersion_def select_last_version_def
          int64_def x_key_def [symmetric])
  show ?thesis
    by (simp add: storeFile_def e o h b)
qed

section \<open>Claims about hashFile and the versions table\<close>

text \<open>
  C3. The digest \<open>hashFile\<close> returns depends on the bytes of the file alone:
  two readable files with the same bytes, under any two paths, in any two
  states of the file system and the tables, get the same digest, which is the
  SHA-256 of the bytes, 32 bytes printed as 64 lower-case hexadecimal digits.
\<close>

theorem hashFile_content_only:
  assumes "map_of (files s) p = Some b" and "\<not> is_dir s p"
    and "\<not> open_fails e p" and "\<not> read_fails e p"
    and "map_of (files s') q = Some b" and "\<not> is_dir s' q"
    and "\<not> open_fails e' q" and "\<not> read_fails e' q"
  shows "hashFile e p s = Inr (sprintf_x (sha256_Sum b))
         \<and> hashFile e' q s' = hashFile e p s
         \<and> length (sha256_Sum b) = 32
         \<and> length (sprintf_x (sha256_Sum b)) = 64
         \<and> set (sprintf_x (sha256_Sum b)) \<subseteq> set ldigits"
  using hashFile_readable [OF assms(1-4)] hashFile_readable [OF assms(5-8)]
  by (simp add: length_sha256_Sum length_digest sprintf_x_hex)

theorem hashFile_content_only_witness:
  "map_of (files report_state) ''docs/report.pdf'' = Some abc
   \<and> \<not> is_dir report_state ''docs/report.pdf''
   \<and> map_of (files two_dirs_stored1) ''a/x.txt'' = Some abc
   \<and> \<not> is_dir two_dirs_stored1 ''a/x.txt''
   \<and> hashFile no_faults ''docs/report.pdf'' report_state = Inr abc_digest
   \<and> hashFile no_faults ''a/x.txt'' two_dirs_stored1 = Inr abc_digest
   \<and> length abc_digest = 64"
proof -
  have a: "map_of (files report_state) ''docs/report.pdf'' = Some abc"
    by (simp add: report_state_def)
  have b: "\<not> is_dir report_state ''docs/report.pdf''"
    by (simp add: is_dir_def report_state_def)
  have c: "map_of (files two_dirs_stored1) ''a/x.txt'' = Some abc"
    by (simp add: two_dirs_stored1_def)
  have d: "\<not> is_dir two_dirs_stored1 ''a/x.txt''"
    by (simp add: is_dir_def two_dirs_stored1_def)
  have f: "\<not> open_fails no_faults x" "\<not> read_fails no_faults x" for x
    by (simp_all add: no_faults_sel)
  from hashFile_content_only [OF a b f c d f] a b c d
  show ?thesis
    by (simp add: sha256_abc)
qed

text \<open>
  C2 as stated fails for concurrent stores: when two calls of \<open>logVersion\<close>
  for \<^verbatim>\<open>x.txt\<close> both send their query before either sends its insertion, both
  read that there is no row and both insert version 1.
\<close>

theorem logVersion_race_counterexample:
  "version_numbers ''x.txt'' (versions (snd (interleave no_faults [0, 1, 0, 1] racing_calls no_rows)))
     = [1, 1]"
  by (simp add: racing_calls_def no_rows_def queryLastVersion_def insertVersion_def
        select_last_version_def int64_def no_faults_sel version_numbers_def)

text \<open>
  C2, as the code has it. When the calls of the program run one after the
  other, starting from an empty versions table, and fewer than \<open>2 ^ 63\<close> of
  them (the range of Go's \<^verbatim>\<open>int\<close>), the version numbers recorded for a file name,
  in insertion order, are \<open>1, 2, \<dots>, n\<close> for some \<open>n\<close>.
\<close>

theorem version_numbers_sequential:
  assumes "versions s = []" and "int (length cs) < 2 ^ 63"
  shows "\<exists>n\<le>length cs. version_numbers f (versions (run_calls cs s)) = map int [1..<Suc n]"
proof -
  have "version_numbers f (versions s) = map int [1..<Suc 0]"
    using assms(1) by (simp add: version_numbers_def)
  from run_calls_versions [OF this, of cs] assms(2) show ?thesis
    by auto
qed

theorem version_numbers_sequential_witness:
  "versions two_dirs_state = []
   \<and> int (length [Store no_faults ''a/x.txt'', Store no_faults ''b/x.txt'']) < 2 ^ 63
   \<and> version_numbers ''x.txt''
        (versions (run_calls [Store no_faults ''a/x.txt'', Store no_faults ''b/x.txt'']
                     two_dirs_state)) = map int [1..<Suc 2]"
proof -
  have a: "versions two_dirs_state = []"
    by (simp add: two_dirs_state_def)
  have b: "int (length [Store no_faults ''a/x.txt'', Store no_faults ''b/x.txt'']) < 2 ^ 63"
    by simp
  have r: "run_calls [Store no_faults ''a/x.txt'', Store no_faults ''b/x.txt''] two_dirs_state
             = two_dirs_stored2"
    by (simp add: two_dirs_first_store two_dirs_second_store)
  have v: "version_numbers ''x.txt'' (versions two_dirs_stored2) = [1, 2]"
    by (simp add: version_numbers_def two_dirs_stored2_def)
  have u: "map int [1..<Suc 2] = [1, 2]"
    by (simp add: upt_rec)
  from version_numbers_sequential [OF a b, of "''x.txt''"] a b show ?thesis
    by (simp only: r v u)
qed

text \<open>
  C9. Every row \<open>storeFile\<close> appends to the actions and versions tables has
  the base name of the source path as its file name. Two stores of paths with
  the same base name therefore write under one file name, and the version rows
  of both extend the one sequence recorded for that name.
\<close>

theorem storeFile_base_name:
  assumes "storeFile e p s = (r, s1)" and "storeFile e' q s1 = (r', s2)"
    and "Base q = Base p"
  shows "\<exists>as vs. actions s2 = actions s @ as \<and> versions s2 = versions s @ vs
           \<and> (\<forall>a\<in>set as. filename a = Base p)
           \<and> (\<forall>v\<in>set vs. vfilename v = Base p)
           \<and> version_numbers (Base p) (versions s2)
               = version_numbers (Base p) (versions s) @ map version vs"
proof -
  from storeFile_rows [OF assms(1)] obtain as1 vs1 where
    1: "actions s1 = actions s @ as1" "versions s1 = versions s @ vs1"
       "\<forall>a\<in>set as1. filename a = Base p" "\<forall>v\<in>set vs1. vfilename v = Base p"
    by auto
  from storeFile_rows [OF assms(2)] obtain as2 vs2 where
    2: "actions s2 = actions s1 @ as2" "versions s2 = versions s1 @ vs2"
       "\<forall>a\<in>set as2. filename a = Base p" "\<forall>v\<in>set vs2. vfilename v = Base p"
    unfolding assms(3) by auto
  have "version_numbers (Base p) (vs1 @ vs2) = map version (vs1 @ vs2)"
    using 1(4) 2(4) by (auto simp: version_numbers_def filter_id_conv)
  with 1 2 show ?thesis
    by (intro exI [of _ "as1 @ as2"] exI [of _ "vs1 @ vs2"])
       (auto simp: version_numbers_append)
qed

theorem storeFile_base_name_witness:
  "storeFile no_faults ''a/x.txt'' two_dirs_state = (Inr (x_key abc), two_dirs_stored1)
   \<and> storeFile no_faults ''b/x.txt'' two_dirs_stored1 = (Inr (x_key []), two_dirs_stored2)
   \<and> Base ''b/x.txt'' = Base ''a/x.txt''
   \<and> map filename (actions two_dirs_stored2) = [''x.txt'', ''x.txt'']
   \<and> map vfilename (versions two_dirs_stored2) = [''x.txt'', ''x.txt'']
   \<and> version_numbers ''x.txt'' (versions two_dirs_stored2) = [1, 2]"
proof -
  have b: "Base ''b/x.txt'' = Base ''a/x.txt''"
    by (simp add: x_paths)
  from storeFile_base_name [OF two_dirs_first_store two_dirs_second_store b]
  obtain as vs where
    "actions two_dirs_stored2 = actions two_dirs_state @ as"
    "versions two_dirs_stored2 = versions two_dirs_state @ vs"
    "\<forall>a\<in>set as. filename a = ''x.txt''" "\<forall>v\<in>set vs. vfilename v = ''x.txt''"
    by (auto simp: x_paths)
  then have "map filename (actions two_dirs_stored2) = [''x.txt'', ''x.txt'']"
    "map vfilename (versions two_dirs_stored2) = [''x.txt'', ''x.txt'']"
    by (auto simp: two_dirs_state_def two_dirs_stored2_def)
  moreover have "version_numbers ''x.txt'' (versions two_dirs_stored2) = [1, 2]"
    by (simp add: version_numbers_def two_dirs_stored2_def)
  ultimately show ?thesis
    using two_dirs_first_store two_dirs_second_store b by simp
qed

section \<open>Facts about the walk\<close>

lemma walk_loop_files:
  "walk_loop e ps hs s = (r, hs', s') \<Longrightarrow>
     (\<forall>x. x \<notin> set ps \<longrightarrow> map_of (files s') x = map_of (files s) x)
     \<and> (\<forall>x. map_of (files s') x = map_of (files s) x \<or> map_of (files s') x = None)
     \<and> (\<forall>d y. hs d = Some y \<longrightarrow> hs' d = Some y)
     \<and> (\<exists>as. actions s' = actions s @ as)"
proof (induction ps arbitrary: hs s)
  case Nil
  then show ?case by simp
next
  case (Cons p ps)
  show ?case
  proof (cases "lstat_fails e p \<or> (is_dir s p \<and> readdir_fails e p)")
    case True
    with Cons.prems show ?thesis by (auto split: if_splits)
  next
    case nf: False
    show ?thesis
    proof (cases "is_dir s p")
      case True
      with nf Cons.prems have "walk_loop e ps hs s = (r, hs', s')" by simp
      from Cons.IH [OF this] show ?thesis by auto
    next
      case nd: False
      show ?thesis
      proof (cases "hashFile e p s")
        case (Inl err)
        with nf nd Cons.prems show ?thesis by simp
      next
        case (Inr d)
        show ?thesis
        proof (cases "hs d")
          case None
          with nf nd Inr Cons.prems have "walk_loop e ps (hs(d \<mapsto> p)) s = (r, hs', s')"
            by simp
          from Cons.IH [OF this] have ih:
            "\<forall>x. x \<notin> set ps \<longrightarrow> map_of (files s') x = map_of (files s) x"
            "\<forall>x. map_of (files s') x = map_of (files s) x \<or> map_of (files s') x = None"
            "\<forall>d' y. (hs(d \<mapsto> p)) d' = Some y \<longrightarrow> hs' d' = Some y"
            "\<exists>as. actions s' = actions s @ as"
            by simp_all
          have "hs' d' = Some y" if "hs d' = Some y" for d' y
          proof -
            from that None have "d' \<noteq> d" by auto
            with that ih(3) show ?thesis by simp
          qed
          with ih(1,2,4) show ?thesis by simp
        next
          case (Some orig)
          show ?thesis
          proof (cases "os_Remove e p s")
            case (Inl err)
            with nf nd Inr Some Cons.prems show ?thesis by simp
          next
            case rm: (Inr s1)
            then have s1: "s1 = s\<lparr>files := AList.delete p (files s)\<rparr>"
              by (auto simp: os_Remove_def split: if_splits)
            show ?thesis
            proof (cases "logAction e ''deduplicate'' p [] s1")
              case (Inl err)
              with nf nd Inr Some rm Cons.prems show ?thesis
                by (auto simp: s1 delete_conv' split: if_splits)
            next
              case la: (Inr s2)
              from logAction_Inr [OF la] have s2:
                "s2 = s1\<lparr>actions := actions s1 @
                   [\<lparr>action_type = ''deduplicate'', filename = p, storage_id = []\<rparr>]\<rparr>" .
              from nf nd Inr Some rm la Cons.prems have
                "walk_loop e ps hs s2 = (r, hs', s')" by simp
              from Cons.IH [OF this] have ih:
                "\<forall>x. x \<notin> set ps \<longrightarrow> map_of (files s') x = map_of (files s2) x"
                "\<forall>x. map_of (files s') x = map_of (files s2) x \<or> map_of (files s') x = None"
                "\<forall>d y. hs d = Some y \<longrightarrow> hs' d = Some y"
                "\<exists>as. actions s' = actions s2 @ as"
                by simp_all
              have m: "map_of (files s2) x = (if x = p then None else map_of (files s) x)" for x
                by (simp add: s1 s2 delete_conv')
              have "map_of (files s') x = map_of (files s) x" if "x \<notin> set (p # ps)" for x
                using that ih(1) m by simp
              moreover have "map_of (files s') x = map_of (files s) x \<or> map_of (files s') x = None"
                for x
                using ih(2) [rule_format, of x] m [of x] by (cases "x = p") auto
              moreover have "\<exists>as. actions s' = actions s @ as"
                using ih(4) by (auto simp: s1 s2)
              ultimately show ?thesis
                using ih(3) by blast
            qed
          qed
        qed
      qed
    qed
  qed
qed


lemma walk_loop_untouched:
  "walk_loop e ps hs s = (r, hs', s') \<Longrightarrow> x \<notin> set ps \<Longrightarrow>
     map_of (files s') x = map_of (files s) x"
  using walk_loop_files [of e ps hs s r hs' s'] by blast

lemma walk_loop_shrinks:
  "walk_loop e ps hs s = (r, hs', s') \<Longrightarrow> map_of (files s') x = Some b \<Longrightarrow>
     map_of (files s) x = Some b"
  using walk_loop_files [of e ps hs s r hs' s'] by (metis option.distinct(1))

lemma walk_loop_hashes:
  "walk_loop e ps hs s = (r, hs', s') \<Longrightarrow> hs d = Some y \<Longrightarrow> hs' d = Some y"
  using walk_loop_files [of e ps hs s r hs' s'] by blast

lemma walk_loop_actions:
  "walk_loop e ps hs s = (r, hs', s') \<Longrightarrow> \<exists>as. actions s' = actions s @ as"
  using walk_loop_files [of e ps hs s r hs' s'] by blast

lemma hashFile_digest_of: "hashFile e p s = Inr d \<Longrightarrow> digest_of s p = Some d"
  using hashFile_Inr [of e p s d] by (auto simp: digest_of_def)

lemma walk_loop_survivors:
  assumes "walk_loop e ps hs s = (None, hs', s')" and "distinct ps"
    and "x \<in> set ps" and "\<not> is_dir s x" and "digest_of s' x = Some d'"
  shows "hs d' = None \<and> hs' d' = Some x"
  using assms
proof (induction ps arbitrary: hs s)
  case Nil
  then show ?case by simp
next
  case (Cons p ps)
  from Cons.prems(2) have pn: "p \<notin> set ps" and dp: "distinct ps" by simp_all
  have nl: "\<not> lstat_fails e p"
  proof
    assume "lstat_fails e p"
    with Cons.prems(1) show False by simp
  qed
  show ?case
  proof (cases "is_dir s p")
    case True
    have "\<not> readdir_fails e p"
    proof
      assume "readdir_fails e p"
      with nl True Cons.prems(1) show False by simp
    qed
    with nl True Cons.prems(1) have rc: "walk_loop e ps hs s = (None, hs', s')"
      by simp
    from True Cons.prems(3,4) have "x \<in> set ps" by auto
    from Cons.IH [OF rc dp this Cons.prems(4,5)] show ?thesis .
  next
    case nd: False
    obtain d where hf: "hashFile e p s = Inr d"
    proof (cases "hashFile e p s")
      case (Inl err)
      with nl nd Cons.prems(1) show ?thesis by simp
    next
      case (Inr d)
      then show ?thesis by (rule that)
    qed
    show ?thesis
    proof (cases "hs d")
      case None
      with nl nd hf Cons.prems(1) have rc: "walk_loop e ps (hs(d \<mapsto> p)) s = (None, hs', s')"
        by simp
      show ?thesis
      proof (cases "x = p")
        case True
        have "map_of (files s') p = map_of (files s) p"
          using rc pn by (rule walk_loop_untouched)
        then have "digest_of s' p = Some d"
          using hashFile_digest_of [OF hf] by (simp add: digest_of_def)
        with Cons.prems(5) True have "d' = d" by simp
        moreover have "hs' d = Some p"
          using rc by (rule walk_loop_hashes) simp
        ultimately show ?thesis using None True by simp
      next
        case False
        with Cons.prems(3) have "x \<in> set ps" by simp
        from Cons.IH [OF rc dp this Cons.prems(4,5)]
        have "(hs(d \<mapsto> p)) d' = None \<and> hs' d' = Some x" .
        then show ?thesis by (cases "d' = d") simp_all
      qed
    next
      case (Some orig)
      obtain s1 where rm: "os_Remove e p s = Inr s1"
      proof (cases "os_Remove e p s")
        case (Inl err)
        with nl nd hf Some Cons.prems(1) show ?thesis by simp
      next
        case (Inr s1)
        then show ?thesis by (rule that)
      qed
      then have s1: "s1 = s\<lparr>files := AList.delete p (files s)\<rparr>"
        by (auto simp: os_Remove_def split: if_splits)
      obtain s2 where la: "logAction e ''deduplicate'' p [] s1 = Inr s2"
      proof (cases "logAction e ''deduplicate'' p [] s1")
        case (Inl err)
        with nl nd hf Some rm Cons.prems(1) show ?thesis by simp
      next
        case (Inr s2)
        then show ?thesis by (rule that)
      qed
      from logAction_Inr [OF la] have s2:
        "s2 = s1\<lparr>actions := actions s1 @
           [\<lparr>action_type = ''deduplicate'', filename = p, storage_id = []\<rparr>]\<rparr>" .
      from nl nd hf Some rm la Cons.prems(1) have rc: "walk_loop e ps hs s2 = (None, hs', s')"
        by simp
      have dir: "\<not> is_dir s2 x"
        using Cons.prems(4) by (simp add: s1 s2 is_dir_def)
      have gone: "digest_of s' p = None"
      proof -
        have "map_of (files s') p = map_of (files s2) p"
          using rc pn by (rule walk_loop_untouched)
        then show ?thesis by (simp add: digest_of_def s1 s2 delete_conv')
      qed
      with Cons.prems(5) have "x \<noteq> p" by auto
      with Cons.prems(3) have "x \<in> set ps" by simp
      from Cons.IH [OF rc dp this dir Cons.prems(5)] show ?thesis .
    qed
  qed
qed

lemma walk_loop_no_duplicates:
  assumes "distinct ps"
    and "\<forall>x\<in>set ps. \<forall>d. \<not> is_dir s x \<longrightarrow> digest_of s x = Some d \<longrightarrow> hs d = None"
    and "\<forall>x\<in>set ps. \<forall>y\<in>set ps. \<forall>d. \<not> is_dir s x \<longrightarrow> \<not> is_dir s y \<longrightarrow>
           digest_of s x = Some d \<longrightarrow> digest_of s y = Some d \<longrightarrow> x = y"
  shows "snd (snd (walk_loop e ps hs s)) = s"
  using assms
proof (induction ps arbitrary: hs)
  case Nil
  then show ?case by simp
next
  case (Cons p ps)
  from Cons.prems(1) have pn: "p \<notin> set ps" and dp: "distinct ps" by simp_all
  have inj: "\<forall>x\<in>set ps. \<forall>y\<in>set ps. \<forall>d. \<not> is_dir s x \<longrightarrow> \<not> is_dir s y \<longrightarrow>
           digest_of s x = Some d \<longrightarrow> digest_of s y = Some d \<longrightarrow> x = y"
    using Cons.prems(3) by simp
  have fresh: "\<forall>x\<in>set ps. \<forall>d. \<not> is_dir s x \<longrightarrow> digest_of s x = Some d \<longrightarrow> hs d = None"
    using Cons.prems(2) by simp
  show ?case
  proof (cases "lstat_fails e p \<or> (is_dir s p \<and> readdir_fails e p)")
    case True
    then show ?thesis by auto
  next
    case nf: False
    show ?thesis
    proof (cases "is_dir s p")
      case True
      with nf Cons.IH [OF dp fresh inj] show ?thesis by simp
    next
      case nd: False
      show ?thesis
      proof (cases "hashFile e p s")
        case (Inl err)
        with nf nd show ?thesis by simp
      next
        case (Inr d)
        note dg = hashFile_digest_of [OF Inr]
        with Cons.prems(2) nd have None: "hs d = None" by simp
        have fr': "\<forall>x\<in>set ps. \<forall>d'. \<not> is_dir s x \<longrightarrow> digest_of s x = Some d' \<longrightarrow>
                (hs(d \<mapsto> p)) d' = None"
        proof (intro ballI allI impI)
          fix x d' assume x: "x \<in> set ps" "\<not> is_dir s x" "digest_of s x = Some d'"
          with pn have "x \<noteq> p" by auto
          have "x = p" if "d' = d"
            using Cons.prems(3) [rule_format, of x p d] x nd dg that by simp
          with \<open>x \<noteq> p\<close> have "d' \<noteq> d" by blast
          with fresh x show "(hs(d \<mapsto> p)) d' = None" by simp
        qed
        have "snd (snd (walk_loop e ps (hs(d \<mapsto> p)) s)) = s"
          by (rule Cons.IH [OF dp fr' inj])
        with nf nd Inr None show ?thesis by simp
      qed
    qed
  qed
qed

lemma walk_loop_no_faults:
  assumes "snd (snd (walk_loop no_faults ps hs s)) = s"
    and "\<forall>x\<in>set ps. \<not> is_dir s x \<longrightarrow> map_of (files s) x \<noteq> None"
  shows "fst (walk_loop no_faults ps hs s) = None"
  using assms
proof (induction ps arbitrary: hs)
  case Nil
  then show ?case by simp
next
  case (Cons p ps)
  have lf: "\<not> lstat_fails no_faults p" "\<not> readdir_fails no_faults p"
    "\<not> remove_fails no_faults p" "\<not> action_fails no_faults a" for a
    by (simp_all add: no_faults_def)
  from Cons.prems(2) have rest: "\<forall>x\<in>set ps. \<not> is_dir s x \<longrightarrow> map_of (files s) x \<noteq> None"
    by simp
  show ?case
  proof (cases "is_dir s p")
    case True
    then have eq: "walk_loop no_faults (p # ps) hs s = walk_loop no_faults ps hs s"
      using lf by simp
    from Cons.prems(1) have "snd (snd (walk_loop no_faults ps hs s)) = s"
      unfolding eq .
    from Cons.IH [OF this rest] show ?thesis
      unfolding eq .
  next
    case nd: False
    with Cons.prems(2) obtain b where b: "map_of (files s) p = Some b" by auto
    have hf: "hashFile no_faults p s = Inr (sprintf_x (sha256_Sum b))"
      using b nd by (intro hashFile_readable) (simp_all add: no_faults_def)
    show ?thesis
    proof (cases "hs (sprintf_x (sha256_Sum b))")
      case None
      have eq: "walk_loop no_faults (p # ps) hs s
                  = walk_loop no_faults ps (hs(sprintf_x (sha256_Sum b) \<mapsto> p)) s"
        using lf nd hf None by simp
      from Cons.prems(1) have
        "snd (snd (walk_loop no_faults ps (hs(sprintf_x (sha256_Sum b) \<mapsto> p)) s)) = s"
        unfolding eq .
      from Cons.IH [OF this rest] show ?thesis
        unfolding eq .
    next
      case (Some orig)
      let ?s2 = "s\<lparr>files := AList.delete p (files s), actions := actions s @
             [\<lparr>action_type = ''deduplicate'', filename = p, storage_id = []\<rparr>]\<rparr>"
      have eq: "walk_loop no_faults (p # ps) hs s = walk_loop no_faults ps hs ?s2"
        using lf nd hf Some b by (simp add: os_Remove_def is_file_def logAction_def)
      obtain r h' s' where w: "walk_loop no_faults ps hs ?s2 = (r, h', s')"
        using prod_cases3 by blast
      from walk_loop_files [OF w] obtain as where
        "actions s' = actions ?s2 @ as"
        by blast
      then have "length (actions s') > length (actions s)" by simp
      then have "s' \<noteq> s" by auto
      with Cons.prems(1) show ?thesis
        unfolding eq w by simp
    qed
  qed
qed

lemma distinct_walk_order: "distinct (walk_order s d)"
  by (simp add: walk_order_def)

lemma set_walk_order:
  "set (walk_order s d) =
     {x \<in> set (map fst (files s)) \<union> set (dirs s). below (Clean d) x}"
  by (auto simp: walk_order_def)

lemma walk_loop_step:
  assumes "walk_loop e (p # ps) hs s = (None, hs', s')" and "\<not> is_dir s p"
  shows "\<exists>d. hashFile e p s = Inr d \<and>
           (case hs d of
              None \<Rightarrow> walk_loop e ps (hs(d \<mapsto> p)) s = (None, hs', s')
            | Some orig \<Rightarrow>
                is_file s p \<and>
                walk_loop e ps hs
                  (s\<lparr>files := AList.delete p (files s),
                     actions := actions s @
                       [\<lparr>action_type = ''deduplicate'', filename = p, storage_id = []\<rparr>]\<rparr>)
                  = (None, hs', s'))"
  using assms
  by (auto simp: os_Remove_def logAction_def Let_def
        split: if_splits sum.splits option.splits)

lemma walk_loop_skip_dirs:
  "walk_loop e ps hs s = (None, hs', s') \<Longrightarrow>
     walk_loop e (filter (\<lambda>x. \<not> is_dir s x) ps) hs s = (None, hs', s')"
proof (induction ps arbitrary: hs s)
  case Nil
  then show ?case by simp
next
  case (Cons p ps)
  show ?case
  proof (cases "is_dir s p")
    case True
    with Cons.prems have "walk_loop e ps hs s = (None, hs', s')"
      by (auto split: if_splits)
    from Cons.IH [OF this] True show ?thesis by simp
  next
    case nd: False
    from Cons.prems have nl: "\<not> lstat_fails e p"
      by (auto split: if_splits)
    from walk_loop_step [OF Cons.prems nd] obtain d where
      hf: "hashFile e p s = Inr d"
      and st: "case hs d of
              None \<Rightarrow> walk_loop e ps (hs(d \<mapsto> p)) s = (None, hs', s')
            | Some orig \<Rightarrow>
                is_file s p \<and>
                walk_loop e ps hs
                  (s\<lparr>files := AList.delete p (files s),
                     actions := actions s @
                       [\<lparr>action_type = ''deduplicate'', filename = p, storage_id = []\<rparr>]\<rparr>)
                  = (None, hs', s')"
      by blast
    show ?thesis
    proof (cases "hs d")
      case None
      with st have "walk_loop e ps (hs(d \<mapsto> p)) s = (None, hs', s')" by simp
      then have "walk_loop e (filter (\<lambda>x. \<not> is_dir s x) ps) (hs(d \<mapsto> p)) s = (None, hs', s')"
        by (rule Cons.IH)
      with nd nl hf None show ?thesis by simp
    next
      case (Some orig)
      let ?s2 = "s\<lparr>files := AList.delete p (files s),
                     actions := actions s @
                       [\<lparr>action_type = ''deduplicate'', filename = p, storage_id = []\<rparr>]\<rparr>"
      from Some st have f: "is_file s p" and rc: "walk_loop e ps hs ?s2 = (None, hs', s')"
        by simp_all
      have rf: "\<not> remove_fails e p"
        "\<not> action_fails e \<lparr>action_type = ''deduplicate'', filename = p, storage_id = []\<rparr>"
        using Cons.prems nd nl hf Some
        by (auto simp: os_Remove_def logAction_def Let_def split: if_splits)
      have "is_dir ?s2 = is_dir s"
        by (rule ext) (simp add: is_dir_def)
      have "walk_loop e (filter (\<lambda>x. \<not> is_dir ?s2 x) ps) hs ?s2 = (None, hs', s')"
        using rc by (rule Cons.IH)
      then have
        "walk_loop e (filter (\<lambda>x. \<not> is_dir s x) ps) hs ?s2 = (None, hs', s')"
        unfolding \<open>is_dir ?s2 = is_dir s\<close> .
      with nd nl hf Some f rf show ?thesis
        by (simp add: os_Remove_def logAction_def Let_def)
    qed
  qed
qed

lemma Walk_None_dir:
  assumes "Walk e d s = (None, hs, s')" and "is_directory s (Clean d)"
  shows "walk_loop e (walk_order s d) Map.empty s = (None, hs, s')" and "os_Lstat s d"
  using assms by (auto simp: Walk_def split: if_splits)

lemma Walk_None_file:
  assumes "Walk e d s = (None, hs, s')" and "\<not> is_directory s (Clean d)"
  shows "s' = s" and "\<exists>h. hashFile e (Clean d) s = Inr h" and "os_Lstat s d"
  using assms by (auto simp: Walk_def split: if_splits sum.splits)

lemma Walk_error_state:
  assumes "\<not> is_directory s (Clean d)"
  shows "snd (snd (Walk e d s)) = s"
  using assms by (auto simp: Walk_def split: sum.splits)

lemma deduplicateFiles_RecvErrCh:
  "deduplicateFiles e RecvErrCh d s = (fst (Walk e d s), snd (snd (Walk e d s)))"
  by (cases "Walk e d s") (auto simp: deduplicateFiles_def split: option.splits)

text \<open>
  What a walk that meets no error does: of two files with the same bytes it
  keeps the first it visits and removes the second, and after it the files of
  the next walk have pairwise different digests, so that a second sweep
  changes nothing.
\<close>

lemma Walk_two_identical:
  assumes "Walk e d s = (None, hs, s')" and "walk_files s d = [p, q]"
    and "map_of (files s) p = Some b" and "map_of (files s) q = Some b"
  shows "map_of (files s') p = Some b \<and> map_of (files s') q = None
         \<and> files s' = AList.delete q (files s)
         \<and> hs = [sprintf_x (sha256_Sum b) \<mapsto> p]
         \<and> actions s' = actions s @
              [\<lparr>action_type = ''deduplicate'', filename = q, storage_id = []\<rparr>]
         \<and> deduplicateFiles e sel d s = (None, s')"
proof -
  let ?dg = "sprintf_x (sha256_Sum b)"
  from assms(2) have isd: "is_directory s (Clean d)"
    by (auto simp: walk_files_def split: if_splits)
  with assms(2) have wf: "filter (\<lambda>x. \<not> is_dir s x) (walk_order s d) = [p, q]"
    by (simp add: walk_files_def)
  from Walk_None_dir(1) [OF assms(1) isd] have
    "walk_loop e (filter (\<lambda>x. \<not> is_dir s x) (walk_order s d)) Map.empty s = (None, hs, s')"
    by (rule walk_loop_skip_dirs)
  then have w: "walk_loop e [p, q] Map.empty s = (None, hs, s')"
    using wf by simp
  have "distinct (filter (\<lambda>x. \<not> is_dir s x) (walk_order s d))"
    using distinct_walk_order by (rule distinct_filter)
  then have pq: "p \<noteq> q" using wf by simp
  have "p \<in> set (filter (\<lambda>x. \<not> is_dir s x) (walk_order s d))"
    "q \<in> set (filter (\<lambda>x. \<not> is_dir s x) (walk_order s d))"
    using wf by simp_all
  then have nd: "\<not> is_dir s p" "\<not> is_dir s q"
    by simp_all
  from walk_loop_step [OF w nd(1)] hashFile_Inr [of e p s] assms(3) have
    1: "walk_loop e [q] [?dg \<mapsto> p] s = (None, hs, s')"
    by (auto simp del: walk_loop.simps)
  from walk_loop_step [OF 1 nd(2)] hashFile_Inr [of e q s] assms(4) have
    2: "hs = [?dg \<mapsto> p]"
       "s' = s\<lparr>files := AList.delete q (files s),
                 actions := actions s @
                   [\<lparr>action_type = ''deduplicate'', filename = q, storage_id = []\<rparr>]\<rparr>"
    by (auto simp del: walk_loop.simps(2))
  have "deduplicateFiles e sel d s = (None, s')"
    by (simp add: deduplicateFiles_def assms(1))
  with 2 pq assms(3) show ?thesis
    by (simp add: delete_conv')
qed

lemma Walk_idempotent:
  assumes "Walk e d s = (None, hs, s')"
  shows "(\<forall>x\<in>set (walk_files s' d). \<forall>y\<in>set (walk_files s' d). \<forall>dg.
            digest_of s' x = Some dg \<longrightarrow> digest_of s' y = Some dg \<longrightarrow> x = y)
         \<and> snd (deduplicateFiles e' sel d s') = s'
         \<and> deduplicateFiles no_faults sel d s' = (None, s')"
proof (cases "is_directory s (Clean d)")
  case isd: True
  note w = Walk_None_dir [OF assms isd]
  note dist = distinct_walk_order [of s d]
  have dirs: "dirs s' = dirs s"
    using walk_loop_keeps [OF w(1)] by simp
  then have isd': "is_dir s' x = is_dir s x" for x
    by (simp add: is_dir_def)
  then have dir': "is_directory s' x = is_directory s x" for x
    by (simp add: is_directory_def)
  have lst: "os_Lstat s' d"
    using w(2) isd by (simp add: os_Lstat_def dir')
  have keys: "x \<in> set (map fst (files s))" if "x \<in> set (map fst (files s'))" for x
  proof -
    from that obtain b where "map_of (files s') x = Some b"
      by (metis map_of_eq_None_iff not_Some_eq set_map)
    from walk_loop_shrinks [OF w(1) this] show ?thesis
      by (metis map_of_eq_None_iff option.distinct(1) set_map)
  qed
  have sub: "set (walk_order s' d) \<subseteq> set (walk_order s d)"
    unfolding set_walk_order dirs using keys by auto
  have inj: "x = y"
    if "x \<in> set (walk_order s' d)" "y \<in> set (walk_order s' d)"
      "\<not> is_dir s' x" "\<not> is_dir s' y" "digest_of s' x = Some dg" "digest_of s' y = Some dg"
    for x y dg
  proof -
    from that sub have "x \<in> set (walk_order s d)" "y \<in> set (walk_order s d)" by auto
    from walk_loop_survivors [OF w(1) dist this(1) _ that(5)]
         walk_loop_survivors [OF w(1) dist this(2) _ that(6)] that(3,4)
    show ?thesis by (simp add: isd')
  qed
  then have part1: "\<forall>x\<in>set (walk_files s' d). \<forall>y\<in>set (walk_files s' d). \<forall>dg.
            digest_of s' x = Some dg \<longrightarrow> digest_of s' y = Some dg \<longrightarrow> x = y"
    using isd by (simp add: walk_files_def dir')
  have loop: "snd (snd (walk_loop e'' (walk_order s' d) Map.empty s')) = s'" for e''
    using distinct_walk_order [of s' d] inj
    by (intro walk_loop_no_duplicates) auto
  have part2: "snd (deduplicateFiles e' sel d s') = s'"
  proof (cases "Walk e' d s'")
    case (fields r h t)
    with loop [of e'] isd have "t = s'"
      by (auto simp: Walk_def dir' split: if_splits)
    with fields show ?thesis
      by (simp add: deduplicateFiles_def split: option.splits select_case.splits)
  qed
  have ex: "\<forall>x\<in>set (walk_order s' d). \<not> is_dir s' x \<longrightarrow> map_of (files s') x \<noteq> None"
  proof (intro ballI impI)
    fix x assume x: "x \<in> set (walk_order s' d)" "\<not> is_dir s' x"
    then have "x \<in> set (map fst (files s'))"
      by (auto simp: set_walk_order is_dir_def)
    then show "map_of (files s') x \<noteq> None"
      by (metis map_of_eq_None_iff set_map)
  qed
  have "fst (walk_loop no_faults (walk_order s' d) Map.empty s') = None"
    using loop [of no_faults] ex by (rule walk_loop_no_faults)
  with loop [of no_faults] lst isd have "Walk no_faults d s' = (None,
      fst (snd (walk_loop no_faults (walk_order s' d) Map.empty s')), s')"
    by (simp add: Walk_def no_faults_def prod_eq_iff dir')
  then have part3: "deduplicateFiles no_faults sel d s' = (None, s')"
    by (simp add: deduplicateFiles_def)
  from part1 part2 part3 show ?thesis by blast
next
  case nd: False
  note w = Walk_None_file [OF assms nd]
  have part1: "\<forall>x\<in>set (walk_files s' d). \<forall>y\<in>set (walk_files s' d). \<forall>dg.
            digest_of s' x = Some dg \<longrightarrow> digest_of s' y = Some dg \<longrightarrow> x = y"
    using nd by (simp add: walk_files_def w(1))
  have part2: "snd (deduplicateFiles e' sel d s') = s'"
    using Walk_error_state [OF nd, of e']
    by (cases "Walk e' d s") (auto simp: deduplicateFiles_def w(1)
          split: option.splits select_case.splits)
  from w(2) obtain h where "hashFile e (Clean d) s = Inr h" by blast
  from hashFile_Inr [OF this] obtain b where b: "map_of (files s) (Clean d) = Some b"
    by blast
  have "\<not> is_dir s (Clean d)"
    using nd by (simp add: is_directory_def)
  with b have "hashFile no_faults (Clean d) s = Inr (sprintf_x (sha256_Sum b))"
    by (intro hashFile_readable) (simp_all add: no_faults_def)
  with w(3) nd have "Walk no_faults d s = (None, [sprintf_x (sha256_Sum b) \<mapsto> d], s)"
    by (simp add: Walk_def no_faults_def)
  then have part3: "deduplicateFiles no_faults sel d s' = (None, s')"
    by (simp add: deduplicateFiles_def w(1))
  from part1 part2 part3 show ?thesis by blast
qed

text \<open>The sweeps of the example directories.\<close>

lemma unreadable_twin_sel:
  "open_fails unreadable_twin p = (p = ''d/b.txt'')" "read_fails unreadable_twin p = False"
  "lstat_fails unreadable_twin p = False" "readdir_fails unreadable_twin p = False"
  "remove_fails unreadable_twin p = False" "action_fails unreadable_twin a = False"
  by (simp_all add: unreadable_twin_def no_faults_def)

lemma remove_fault_sel:
  "open_fails remove_fault p = False" "read_fails remove_fault p = False"
  "lstat_fails remove_fault p = False" "readdir_fails remove_fault p = False"
  "remove_fails remove_fault p = True"
  by (simp_all add: remove_fault_def no_faults_def)

lemma Clean_d: "Clean ''d'' = ''d''"
  by code_simp

lemma twins_root: "os_Lstat twins_state ''d''" "is_directory twins_state ''d''"
  by code_simp+

lemma trio_root: "os_Lstat trio_state ''d''" "is_directory trio_state ''d''"
  by code_simp+

lemma trio_swept_root: "os_Lstat trio_swept ''d''" "is_directory trio_swept ''d''"
  by code_simp+

lemma twins_order: "walk_order twins_state ''d'' = [''d/a.txt'', ''d/b.txt'']"
  by code_simp

lemma trio_order: "walk_order trio_state ''d'' = [''d/a.txt'', ''d/b.txt'', ''d/c.txt'']"
  by code_simp

lemma trio_swept_order: "walk_order trio_swept ''d'' = [''d/a.txt'', ''d/c.txt'']"
  by code_simp

lemma twins_walk:
  "Walk no_faults ''d'' twins_state =
     (None, [sprintf_x (sha256_Sum abc) \<mapsto> ''d/a.txt''], twins_swept)"
proof -
  have "walk_loop no_faults [''d/a.txt'', ''d/b.txt''] Map.empty twins_state =
          (None, [sprintf_x (sha256_Sum abc) \<mapsto> ''d/a.txt''], twins_swept)"
    by (simp add: no_faults_sel os_Stat_def is_dir_def is_file_def twins_state_def
          twins_swept_def hashFile_def os_Open_def read_all_def os_Remove_def logAction_def)
  then show ?thesis
    by (simp add: Walk_def Clean_d twins_root twins_order no_faults_sel)
qed

lemma twins_walk_unreadable:
  "Walk unreadable_twin ''d'' twins_state =
     (Some (Wrapped ''failed to open file'' (OsError ''open'' ''d/b.txt'')),
      [sprintf_x (sha256_Sum abc) \<mapsto> ''d/a.txt''], twins_state)"
proof -
  have "walk_loop unreadable_twin [''d/a.txt'', ''d/b.txt''] Map.empty twins_state =
          (Some (Wrapped ''failed to open file'' (OsError ''open'' ''d/b.txt'')),
           [sprintf_x (sha256_Sum abc) \<mapsto> ''d/a.txt''], twins_state)"
    by (simp add: unreadable_twin_sel os_Stat_def is_dir_def is_file_def twins_state_def
          hashFile_def os_Open_def read_all_def)
  then show ?thesis
    by (simp add: Walk_def Clean_d twins_root twins_order unreadable_twin_sel)
qed

lemma twins_walk_remove_fault:
  "Walk remove_fault ''d'' twins_state =
     (Some (OsError ''remove'' ''d/b.txt''),
      [sprintf_x (sha256_Sum abc) \<mapsto> ''d/a.txt''], twins_state)"
proof -
  have "walk_loop remove_fault [''d/a.txt'', ''d/b.txt''] Map.empty twins_state =
          (Some (OsError ''remove'' ''d/b.txt''),
           [sprintf_x (sha256_Sum abc) \<mapsto> ''d/a.txt''], twins_state)"
    by (simp add: remove_fault_sel os_Stat_def is_dir_def is_file_def twins_state_def
          hashFile_def os_Open_def read_all_def os_Remove_def)
  then show ?thesis
    by (simp add: Walk_def Clean_d twins_root twins_order remove_fault_sel)
qed

text \<open>The same sweep under other spellings of the directory, and from the working directory.\<close>

lemma twins_walk_spellings:
  "Walk no_faults ''d/'' twins_state =
     (None, [sprintf_x (sha256_Sum abc) \<mapsto> ''d/a.txt''], twins_swept)"
  "Walk no_faults ''./d'' twins_state =
     (None, [sprintf_x (sha256_Sum abc) \<mapsto> ''d/a.txt''], twins_swept)"
  "Walk no_faults ''.'' twins_state =
     (None, [sprintf_x (sha256_Sum abc) \<mapsto> ''d/a.txt''], twins_swept)"
proof -
  have l: "walk_loop no_faults [''d/a.txt'', ''d/b.txt''] Map.empty twins_state =
          (None, [sprintf_x (sha256_Sum abc) \<mapsto> ''d/a.txt''], twins_swept)"
    by (simp add: no_faults_sel os_Stat_def is_dir_def is_file_def twins_state_def
          twins_swept_def hashFile_def os_Open_def read_all_def os_Remove_def logAction_def)
  have d: "is_dir twins_state ''d''"
    by (simp add: is_dir_def twins_state_def)
  have c: "Clean ''d/'' = ''d''" "Clean ''./d'' = ''d''" "Clean ''.'' = ''.''"
    by code_simp+
  have r: "os_Lstat twins_state ''d/''" "os_Lstat twins_state ''./d''" "os_Lstat twins_state ''.''"
    by code_simp+
  have o: "walk_order twins_state ''d/'' = [''d/a.txt'', ''d/b.txt'']"
    "walk_order twins_state ''./d'' = [''d/a.txt'', ''d/b.txt'']"
    "walk_order twins_state ''.'' = [''d'', ''d/a.txt'', ''d/b.txt'']"
    by code_simp+
  show "Walk no_faults ''d/'' twins_state =
     (None, [sprintf_x (sha256_Sum abc) \<mapsto> ''d/a.txt''], twins_swept)"
    using l by (simp add: Walk_def c r o twins_root no_faults_sel)
  show "Walk no_faults ''./d'' twins_state =
     (None, [sprintf_x (sha256_Sum abc) \<mapsto> ''d/a.txt''], twins_swept)"
    using l by (simp add: Walk_def c r o twins_root no_faults_sel)
  show "Walk no_faults ''.'' twins_state =
     (None, [sprintf_x (sha256_Sum abc) \<mapsto> ''d/a.txt''], twins_swept)"
    using l d by (simp add: Walk_def c r o is_directory_def no_faults_sel)
qed

lemma digests_differ: "sprintf_x (sha256_Sum []) \<noteq> sprintf_x (sha256_Sum abc)"
  by (simp add: sha256_abc sha256_empty abc_digest_def empty_digest_def)

lemma trio_walk:
  "Walk no_faults ''d'' trio_state =
     (None, [sprintf_x (sha256_Sum abc) \<mapsto> ''d/a.txt'', sprintf_x (sha256_Sum []) \<mapsto> ''d/c.txt''],
      trio_swept)"
proof -
  have "walk_loop no_faults [''d/a.txt'', ''d/b.txt'', ''d/c.txt''] Map.empty trio_state =
          (None, [sprintf_x (sha256_Sum abc) \<mapsto> ''d/a.txt'',
                  sprintf_x (sha256_Sum []) \<mapsto> ''d/c.txt''], trio_swept)"
    using digests_differ
    by (simp add: no_faults_sel os_Stat_def is_dir_def is_file_def trio_state_def
          trio_swept_def hashFile_def os_Open_def read_all_def os_Remove_def logAction_def)
  then show ?thesis
    by (simp add: Walk_def Clean_d trio_root trio_order no_faults_sel)
qed

lemma twins_files: "walk_files twins_state ''d'' = [''d/a.txt'', ''d/b.txt'']"
proof -
  have "is_dir twins_state = (\<lambda>p. p = ''d'')"
    by (rule ext) (simp add: is_dir_def twins_state_def)
  then show ?thesis
    by (simp add: walk_files_def Clean_d twins_root twins_order)
qed

lemma trio_swept_files: "walk_files trio_swept ''d'' = [''d/a.txt'', ''d/c.txt'']"
proof -
  have "is_dir trio_swept = (\<lambda>p. p = ''d'')"
    by (rule ext) (simp add: is_dir_def trio_swept_def)
  then show ?thesis
    by (simp add: walk_files_def Clean_d trio_swept_root trio_swept_order)
qed

text \<open>
  The two facts above at the example directories: the sweep of two twins, and
  a second sweep after one that met no error.
\<close>

lemma Walk_two_identical_example:
  "Walk no_faults ''d'' twins_state =
     (None, [sprintf_x (sha256_Sum abc) \<mapsto> ''d/a.txt''], twins_swept)
   \<and> walk_files twins_state ''d'' = [''d/a.txt'', ''d/b.txt'']
   \<and> map_of (files twins_swept) ''d/a.txt'' = Some abc
   \<and> map_of (files twins_swept) ''d/b.txt'' = None
   \<and> actions twins_swept = actions twins_state @
         [\<lparr>action_type = ''deduplicate'', filename = ''d/b.txt'', storage_id = []\<rparr>]
   \<and> deduplicateFiles no_faults RecvDone ''d'' twins_state = (None, twins_swept)"
proof -
  have a: "map_of (files twins_state) ''d/a.txt'' = Some abc"
    by (simp add: twins_state_def)
  have b: "map_of (files twins_state) ''d/b.txt'' = Some abc"
    by (simp add: twins_state_def)
  from Walk_two_identical [OF twins_walk twins_files a b, of RecvDone] twins_walk twins_files
  show ?thesis by blast
qed

lemma Walk_idempotent_example:
  "Walk no_faults ''d'' trio_state =
     (None, [sprintf_x (sha256_Sum abc) \<mapsto> ''d/a.txt'', sprintf_x (sha256_Sum []) \<mapsto> ''d/c.txt''],
      trio_swept)
   \<and> walk_files trio_swept ''d'' = [''d/a.txt'', ''d/c.txt'']
   \<and> snd (deduplicateFiles copy_fault RecvDone ''d'' trio_swept) = trio_swept
   \<and> deduplicateFiles no_faults RecvErrCh ''d'' trio_swept = (None, trio_swept)"
  using Walk_idempotent [OF trio_walk, of copy_fault RecvDone]
    Walk_idempotent [OF trio_walk, of copy_fault RecvErrCh] trio_walk trio_swept_files
  by blast

section \<open>Claims about deduplicateFiles\<close>

text \<open>
  C5. A sweep that returns no error need not have gone through the directory:
  the error of the walk is lost when the \<open>select\<close> of \<open>deduplicateFiles\<close>
  receives from \<^verbatim>\<open>done\<close> (see C7). In the directory of the twins, with the
  second twin unreadable, the walk enters the first twin in the digest map and
  fails at the second; \<open>deduplicateFiles\<close> then returns no error, both twins
  are still there and no action has been appended.
\<close>

theorem deduplicateFiles_keeps_both_twins:
  "walk_files twins_state ''d'' = [''d/a.txt'', ''d/b.txt'']
   \<and> map_of (files twins_state) ''d/a.txt'' = Some abc
   \<and> map_of (files twins_state) ''d/b.txt'' = Some abc
   \<and> fst (Walk unreadable_twin ''d'' twins_state) =
        Some (Wrapped ''failed to open file'' (OsError ''open'' ''d/b.txt''))
   \<and> deduplicateFiles unreadable_twin RecvDone ''d'' twins_state = (None, twins_state)"
  by (simp add: twins_files twins_walk_unreadable deduplicateFiles_def)
     (simp add: twins_state_def)

text \<open>
  C6. For the same reason a second sweep can still find a duplicate: when the
  removal of the second twin fails in the first sweep and the error is lost,
  the first sweep returns no error and has changed nothing; the next sweep, in
  which nothing fails, removes the second twin and appends an action.
\<close>

theorem deduplicateFiles_second_sweep_removes:
  "fst (Walk remove_fault ''d'' twins_state) = Some (OsError ''remove'' ''d/b.txt'')
   \<and> deduplicateFiles remove_fault RecvDone ''d'' twins_state = (None, twins_state)
   \<and> deduplicateFiles no_faults RecvDone ''d'' twins_state = (None, twins_swept)
   \<and> map_of (files twins_state) ''d/b.txt'' = Some abc
   \<and> map_of (files twins_swept) ''d/b.txt'' = None
   \<and> actions twins_swept = actions twins_state @
        [\<lparr>action_type = ''deduplicate'', filename = ''d/b.txt'', storage_id = []\<rparr>]"
  by (simp add: twins_walk_remove_fault twins_walk deduplicateFiles_def)
     (simp add: twins_state_def twins_swept_def)

text \<open>
  C7. The walk stops at its first error and keeps the removals made before it,
  and \<open>deduplicateFiles\<close> returns that error when its \<open>select\<close> receives from
  \<^verbatim>\<open>errCh\<close>. When the \<open>select\<close> receives from \<^verbatim>\<open>done\<close> instead, which Go allows
  once the goroutine waits to send on it, the error is lost: for a directory
  that does not exist the walk fails at once and \<open>deduplicateFiles\<close> returns
  no error.
\<close>

theorem deduplicateFiles_error_lost:
  "fst (Walk no_faults ''missing'' twins_state) = Some (OsError ''lstat'' ''missing'')
   \<and> deduplicateFiles no_faults RecvErrCh ''missing'' twins_state =
       (Some (OsError ''lstat'' ''missing''), twins_state)
   \<and> deduplicateFiles no_faults RecvDone ''missing'' twins_state = (None, twins_state)"
proof -
  have "\<not> os_Lstat twins_state ''missing''"
    by code_simp
  then show ?thesis
    by (simp add: deduplicateFiles_def Walk_def)
qed

end
